theory Spec2Isabelle
  imports Main
begin

section \<open>Fault-tolerance patterns: retry, rate limiter, circuit breaker, bulkhead\<close>

text \<open>
  The four classes of \<^verbatim>\<open>Lab4/FaultTolerance/patterns\<close> are embedded as state-passing
  functions. Numbers are integers: delays, window sizes and \<^verbatim>\<open>Date.now()\<close> values are
  millisecond counts, counters are incremented from zero, and the configuration is taken
  as integer valued (the source's doubles are exact on integers of this size). Every
  read of the clock is a parameter of the function that reads it.
\<close>

subsection \<open>Options and thrown errors\<close>

text \<open>
  A numeric option is \<open>None\<close> when the property is absent from the options object
  (\<^verbatim>\<open>undefined\<close>). \<^verbatim>\<open>options.x || d\<close> yields \<open>d\<close> for every falsy \<open>x\<close>; the falsy
  number is \<open>0\<close>.
\<close>

definition or_default :: "int option \<Rightarrow> int \<Rightarrow> int" where
  "or_default x d = (case x of None \<Rightarrow> d | Some n \<Rightarrow> if n = 0 then d else n)"

text \<open>The falsy string is the empty one.\<close>

definition or_default_str :: "string option \<Rightarrow> string \<Rightarrow> string" where
  "or_default_str x d = (case x of None \<Rightarrow> d | Some s \<Rightarrow> if s = [] then d else s)"

text \<open>
  What a component throws: an \<^verbatim>\<open>Error\<close> it creates itself, tagged by its \<^verbatim>\<open>code\<close>, or
  the error \<open>e\<close> of the guarded operation, passed on as it is.
\<close>

datatype 'e failure =
    RATE_LIMITED
  | BULKHEAD_FULL
  | BULKHEAD_TIMEOUT
  | CIRCUIT_OPEN
  | Downstream 'e

text \<open>
  An operation \<^verbatim>\<open>fn\<close> is a function of the world it runs in: it throws (\<open>Inl\<close>) or
  returns (\<open>Inr\<close>) and leaves a new world behind.
\<close>

type_synonym ('w, 'e, 'r) operation = "'w \<Rightarrow> ('e + 'r) \<times> 'w"

text \<open>The world in which \<open>n\<close> invocations of \<open>fn\<close> have been made from \<open>w\<close>.\<close>

definition world_after :: "('w, 'e, 'r) operation \<Rightarrow> nat \<Rightarrow> 'w \<Rightarrow> 'w" where
  "world_after fn n w = ((\<lambda>v. snd (fn v)) ^^ n) w"

text \<open>
  An operation that fails on every invocation, and one that plays a script of outcomes
  (\<open>True\<close> succeeds), counting its invocations; both are used to run the components on
  concrete inputs.
\<close>

definition always_fails :: "('w, 'e, 'r) operation \<Rightarrow> bool" where
  "always_fails fn = (\<forall>w. isl (fst (fn w)))"

definition failing_op :: "(nat, nat, unit) operation" where
  "failing_op n = (Inl n, Suc n)"

fun scripted_op :: "(bool list \<times> nat, nat, nat) operation" where
  "scripted_op ([], n) = (Inl n, ([], Suc n))"
| "scripted_op (b # bs, n) = ((if b then Inr n else Inl n), (bs, Suc n))"

subsection \<open>RetryPattern\<close>

record retry_stats =
  totalAttempts :: int
  successfulRetries :: int
  failedAfterRetries :: int

record RetryPattern =
  maxRetries :: int
  delay :: int
  backoffMultiplier :: int
  maxDelay :: int
  retry_stats :: retry_stats

record retry_options =
  opt_maxRetries :: "int option"
  opt_delay :: "int option"
  opt_backoffMultiplier :: "int option"
  opt_maxDelay :: "int option"

definition RetryPattern_new :: "retry_options \<Rightarrow> RetryPattern" where
  "RetryPattern_new options =
     \<lparr> maxRetries = or_default (opt_maxRetries options) 3,
       delay = or_default (opt_delay options) 1000,
       backoffMultiplier = or_default (opt_backoffMultiplier options) 2,
       maxDelay = or_default (opt_maxDelay options) 10000,
       retry_stats = \<lparr> totalAttempts = 0, successfulRetries = 0, failedAfterRetries = 0 \<rparr> \<rparr>"

text \<open>
  What \<^verbatim>\<open>execute\<close> does to the outside, in order: it invokes \<^verbatim>\<open>fn\<close> and it sleeps.
\<close>

datatype retry_event = Invoke | Sleep int

definition invocations :: "retry_event list \<Rightarrow> nat" where
  "invocations tr = length (filter (\<lambda>ev. ev = Invoke) tr)"

fun sleeps :: "retry_event list \<Rightarrow> int list" where
  "sleeps [] = []"
| "sleeps (Invoke # tr) = sleeps tr"
| "sleeps (Sleep d # tr) = d # sleeps tr"

definition count_attempt :: "RetryPattern \<Rightarrow> RetryPattern" where
  "count_attempt p =
     p\<lparr>retry_stats := (retry_stats p)\<lparr>totalAttempts := totalAttempts (retry_stats p) + 1\<rparr>\<rparr>"

definition count_successfulRetry :: "RetryPattern \<Rightarrow> RetryPattern" where
  "count_successfulRetry p =
     p\<lparr>retry_stats := (retry_stats p)\<lparr>successfulRetries := successfulRetries (retry_stats p) + 1\<rparr>\<rparr>"

definition count_failedAfterRetries :: "RetryPattern \<Rightarrow> RetryPattern" where
  "count_failedAfterRetries p =
     p\<lparr>retry_stats := (retry_stats p)\<lparr>failedAfterRetries := failedAfterRetries (retry_stats p) + 1\<rparr>\<rparr>"

text \<open>
  The \<^verbatim>\<open>for\<close> loop of \<^verbatim>\<open>execute\<close>, from the value of \<^verbatim>\<open>attempt\<close> on. \<open>lastError\<close> is
  \<open>None\<close> while the variable is \<^verbatim>\<open>undefined\<close>; the \<^verbatim>\<open>throw lastError\<close> after the loop is
  the last branch.
\<close>

function retry_loop ::
  "('w, 'e, 'r) operation \<Rightarrow> int \<Rightarrow> int \<Rightarrow> 'e option \<Rightarrow> RetryPattern \<Rightarrow> 'w \<Rightarrow> retry_event list
     \<Rightarrow> ('e option + 'r) \<times> RetryPattern \<times> 'w \<times> retry_event list" where
  "retry_loop fn attempt currentDelay lastError p w tr =
     (if attempt \<le> maxRetries p + 1 then
        (let p1 = count_attempt p in
         case fn w of
           (Inr result, w') \<Rightarrow>
             (Inr result, (if attempt > 1 then count_successfulRetry p1 else p1), w', tr @ [Invoke])
         | (Inl error, w') \<Rightarrow>
             if attempt > maxRetries p1
             then (Inl (Some error), count_failedAfterRetries p1, w', tr @ [Invoke])
             else retry_loop fn (attempt + 1)
                    (min (currentDelay * backoffMultiplier p1) (maxDelay p1))
                    (Some error) p1 w' (tr @ [Invoke, Sleep currentDelay]))
      else (Inl lastError, p, w, tr))"
  by pat_completeness auto
termination
  by (relation "measure (\<lambda>(fn, attempt, currentDelay, lastError, p, w, tr).
                   nat (maxRetries p + 1 - attempt))")
     (auto simp: count_attempt_def)

definition retry_execute ::
  "RetryPattern \<Rightarrow> ('w, 'e, 'r) operation \<Rightarrow> 'w
     \<Rightarrow> ('e option + 'r) \<times> RetryPattern \<times> 'w \<times> retry_event list" where
  "retry_execute p fn w = retry_loop fn 1 (delay p) None p w []"

text \<open>The trace component of a result of \<^verbatim>\<open>execute\<close>.\<close>

abbreviation trace_of :: "'a \<times> 'b \<times> 'c \<times> 'd \<Rightarrow> 'd" where
  "trace_of R \<equiv> snd (snd (snd R))"

text \<open>The assignment \<^verbatim>\<open>currentDelay = Math.min(currentDelay * backoffMultiplier, maxDelay)\<close>.\<close>

definition backoff_step :: "RetryPattern \<Rightarrow> int \<Rightarrow> int" where
  "backoff_step p d = min (d * backoffMultiplier p) (maxDelay p)"

text \<open>
  The trace of a run that slept \<open>ds\<close>: every sleep follows a failed invocation and is
  followed by the next one.
\<close>

definition attempts_trace :: "int list \<Rightarrow> retry_event list" where
  "attempts_trace ds = concat (map (\<lambda>d. [Invoke, Sleep d]) ds) @ [Invoke]"

definition default_retry_options :: retry_options where
  "default_retry_options =
     \<lparr> opt_maxRetries = None, opt_delay = None, opt_backoffMultiplier = None, opt_maxDelay = None \<rparr>"

definition capped_retry_options :: retry_options where
  "capped_retry_options = default_retry_options\<lparr>opt_maxRetries := Some 5\<rparr>"

definition long_delay_retry_options :: retry_options where
  "long_delay_retry_options = default_retry_options\<lparr>opt_delay := Some 20000\<rparr>"

subsection \<open>RateLimiter\<close>

record rl_stats =
  rl_totalRequests :: int
  rl_allowedRequests :: int
  rl_rejectedRequests :: int

record RateLimiter =
  maxRequests :: int
  windowMs :: int
  requests :: "int list"
  rl_stats :: rl_stats

record rl_options =
  opt_maxRequests :: "int option"
  opt_windowMs :: "int option"

definition RateLimiter_new :: "rl_options \<Rightarrow> RateLimiter" where
  "RateLimiter_new options =
     \<lparr> maxRequests = or_default (opt_maxRequests options) 10,
       windowMs = or_default (opt_windowMs options) 60000,
       requests = [],
       rl_stats = \<lparr> rl_totalRequests = 0, rl_allowedRequests = 0, rl_rejectedRequests = 0 \<rparr> \<rparr>"

definition cleanupOldRequests :: "int \<Rightarrow> RateLimiter \<Rightarrow> RateLimiter" where
  "cleanupOldRequests now rl =
     (let windowStart = now - windowMs rl
      in rl\<lparr>requests := filter (\<lambda>timestamp. timestamp > windowStart) (requests rl)\<rparr>)"

text \<open>\<^verbatim>\<open>tryAcquire\<close>, with the value \<open>now\<close> that \<^verbatim>\<open>Date.now()\<close> returns.\<close>

definition tryAcquire :: "int \<Rightarrow> RateLimiter \<Rightarrow> bool \<times> RateLimiter" where
  "tryAcquire now rl =
     (let rl1 = rl\<lparr>rl_stats := (rl_stats rl)\<lparr>rl_totalRequests := rl_totalRequests (rl_stats rl) + 1\<rparr>\<rparr>;
          rl2 = cleanupOldRequests now rl1
      in if int (length (requests rl2)) \<ge> maxRequests rl2
         then (False,
               rl2\<lparr>rl_stats := (rl_stats rl2)\<lparr>rl_rejectedRequests := rl_rejectedRequests (rl_stats rl2) + 1\<rparr>\<rparr>)
         else (True,
               rl2\<lparr>requests := requests rl2 @ [now],
                   rl_stats := (rl_stats rl2)\<lparr>rl_allowedRequests := rl_allowedRequests (rl_stats rl2) + 1\<rparr>\<rparr>))"

definition rl_reset :: "RateLimiter \<Rightarrow> RateLimiter" where
  "rl_reset rl = rl\<lparr>requests := []\<rparr>"

text \<open>Calls of \<^verbatim>\<open>tryAcquire\<close> one after the other, at the given clock readings.\<close>

fun tryAcquire_seq :: "int list \<Rightarrow> RateLimiter \<Rightarrow> bool list \<times> RateLimiter" where
  "tryAcquire_seq [] rl = ([], rl)"
| "tryAcquire_seq (now # ts) rl =
     (let (allowed, rl') = tryAcquire now rl;
          (rest, rl'') = tryAcquire_seq ts rl'
      in (allowed # rest, rl''))"

definition default_rl_options :: rl_options where
  "default_rl_options = \<lparr> opt_maxRequests = None, opt_windowMs = None \<rparr>"

text \<open>
  Two limiters decide alike from here on: same configuration, same recorded timestamps.
  The statistics are not read by \<^verbatim>\<open>tryAcquire\<close>.
\<close>

definition rl_alike :: "RateLimiter \<Rightarrow> RateLimiter \<Rightarrow> bool" where
  "rl_alike a b =
     (maxRequests a = maxRequests b \<and> windowMs a = windowMs b \<and> requests a = requests b)"

subsection \<open>CircuitBreaker\<close>

datatype cb_state = CLOSED | OPEN | HALF_OPEN

record cb_stats =
  cb_totalRequests :: int
  cb_successfulRequests :: int
  cb_failedRequests :: int
  cb_rejectedRequests :: int
  stateChanges :: "(cb_state \<times> cb_state \<times> int) list"

text \<open>\<open>lastFailureTime\<close> is \<open>None\<close> while the field is \<^verbatim>\<open>null\<close>.\<close>

record CircuitBreaker =
  failureThreshold :: int
  resetTimeout :: int
  halfOpenRequests :: int
  state :: cb_state
  failureCount :: int
  successCount :: int
  lastFailureTime :: "int option"
  halfOpenAttempts :: int
  cb_stats :: cb_stats

record cb_options =
  opt_failureThreshold :: "int option"
  opt_resetTimeout :: "int option"
  opt_halfOpenRequests :: "int option"

definition CircuitBreaker_new :: "cb_options \<Rightarrow> CircuitBreaker" where
  "CircuitBreaker_new options =
     \<lparr> failureThreshold = or_default (opt_failureThreshold options) 5,
       resetTimeout = or_default (opt_resetTimeout options) 30000,
       halfOpenRequests = or_default (opt_halfOpenRequests options) 3,
       state = CLOSED,
       failureCount = 0,
       successCount = 0,
       lastFailureTime = None,
       halfOpenAttempts = 0,
       cb_stats = \<lparr> cb_totalRequests = 0, cb_successfulRequests = 0, cb_failedRequests = 0,
                    cb_rejectedRequests = 0, stateChanges = [] \<rparr> \<rparr>"

text \<open>
  \<^verbatim>\<open>changeState\<close>; the entry of the history carries the clock reading \<open>now\<close> of the turn
  in which the change happens.
\<close>

definition changeState :: "cb_state \<Rightarrow> int \<Rightarrow> CircuitBreaker \<Rightarrow> CircuitBreaker" where
  "changeState newState now cb =
     (let oldState = state cb
      in cb\<lparr>state := newState,
            cb_stats := (cb_stats cb)\<lparr>stateChanges :=
                          stateChanges (cb_stats cb) @ [(oldState, newState, now)]\<rparr>\<rparr>)"

definition resetCounts :: "CircuitBreaker \<Rightarrow> CircuitBreaker" where
  "resetCounts cb = cb\<lparr>failureCount := 0, successCount := 0, halfOpenAttempts := 0\<rparr>"

text \<open>In \<^verbatim>\<open>Date.now() - this.lastFailureTime\<close> a \<^verbatim>\<open>null\<close> counts as 0.\<close>

definition evaluateState :: "int \<Rightarrow> CircuitBreaker \<Rightarrow> CircuitBreaker" where
  "evaluateState now cb =
     (if state cb = OPEN then
        (let timeSinceLastFailure = now - (case lastFailureTime cb of None \<Rightarrow> 0 | Some t \<Rightarrow> t)
         in if timeSinceLastFailure \<ge> resetTimeout cb
            then (changeState HALF_OPEN now cb)\<lparr>halfOpenAttempts := 0\<rparr>
            else cb)
      else cb)"

definition onSuccess :: "int \<Rightarrow> CircuitBreaker \<Rightarrow> CircuitBreaker" where
  "onSuccess now cb =
     (if state cb = HALF_OPEN then
        (let cb1 = cb\<lparr>successCount := successCount cb + 1,
                       halfOpenAttempts := halfOpenAttempts cb + 1\<rparr>
         in if successCount cb1 \<ge> halfOpenRequests cb1
            then resetCounts (changeState CLOSED now cb1)
            else cb1)
      else cb\<lparr>failureCount := 0\<rparr>)"

definition onFailure :: "int \<Rightarrow> CircuitBreaker \<Rightarrow> CircuitBreaker" where
  "onFailure now cb =
     (let cb1 = cb\<lparr>failureCount := failureCount cb + 1, lastFailureTime := Some now\<rparr>
      in if state cb1 = HALF_OPEN then changeState OPEN now cb1
         else if failureCount cb1 \<ge> failureThreshold cb1 then changeState OPEN now cb1
         else cb1)"

definition count_total :: "CircuitBreaker \<Rightarrow> CircuitBreaker" where
  "count_total cb =
     cb\<lparr>cb_stats := (cb_stats cb)\<lparr>cb_totalRequests := cb_totalRequests (cb_stats cb) + 1\<rparr>\<rparr>"

definition count_rejected :: "CircuitBreaker \<Rightarrow> CircuitBreaker" where
  "count_rejected cb =
     cb\<lparr>cb_stats := (cb_stats cb)\<lparr>cb_rejectedRequests := cb_rejectedRequests (cb_stats cb) + 1\<rparr>\<rparr>"

definition count_successful :: "CircuitBreaker \<Rightarrow> CircuitBreaker" where
  "count_successful cb =
     cb\<lparr>cb_stats := (cb_stats cb)\<lparr>cb_successfulRequests := cb_successfulRequests (cb_stats cb) + 1\<rparr>\<rparr>"

definition count_failed :: "CircuitBreaker \<Rightarrow> CircuitBreaker" where
  "count_failed cb =
     cb\<lparr>cb_stats := (cb_stats cb)\<lparr>cb_failedRequests := cb_failedRequests (cb_stats cb) + 1\<rparr>\<rparr>"

text \<open>
  \<^verbatim>\<open>execute\<close>, run without another call of the same breaker in between: \<open>now\<close> is the
  clock when the call starts, \<open>fin\<close> the clock when \<^verbatim>\<open>fn\<close> has settled.
\<close>

definition cb_execute ::
  "('w, 'e, 'r) operation \<Rightarrow> int \<Rightarrow> int \<Rightarrow> CircuitBreaker \<Rightarrow> 'w
     \<Rightarrow> ('e failure + 'r) \<times> CircuitBreaker \<times> 'w" where
  "cb_execute fn now fin cb w =
     (let cb1 = count_total cb;
          cb2 = evaluateState now cb1
      in if state cb2 = OPEN then (Inl CIRCUIT_OPEN, count_rejected cb2, w)
         else case fn w of
                (Inr result, w') \<Rightarrow> (Inr result, count_successful (onSuccess fin cb2), w')
              | (Inl error, w') \<Rightarrow> (Inl (Downstream error), count_failed (onFailure fin cb2), w'))"

definition cb_reset :: "CircuitBreaker \<Rightarrow> CircuitBreaker" where
  "cb_reset cb = resetCounts (cb\<lparr>state := CLOSED\<rparr>)"

text \<open>Calls of \<^verbatim>\<open>execute\<close> one after the other, each with its two clock readings.\<close>

fun cb_run ::
  "('w, 'e, 'r) operation \<Rightarrow> (int \<times> int) list \<Rightarrow> CircuitBreaker \<Rightarrow> 'w
     \<Rightarrow> ('e failure + 'r) list \<times> CircuitBreaker \<times> 'w" where
  "cb_run fn [] cb w = ([], cb, w)"
| "cb_run fn ((now, fin) # ts) cb w =
     (let (res, cb', w') = cb_execute fn now fin cb w;
          (rest, cb'', w'') = cb_run fn ts cb' w'
      in (res # rest, cb'', w''))"

text \<open>
  The states a breaker constructed from \<open>options\<close> can be in. Calls may overlap (a
  second call can start while the \<^verbatim>\<open>fn\<close> of the first is awaited), so the steps are the
  parts of \<^verbatim>\<open>execute\<close> that run without suspension: the part before \<^verbatim>\<open>fn\<close> is invoked,
  the part after it returned, the part after it threw; and \<^verbatim>\<open>reset\<close>.
\<close>

inductive cb_reachable :: "cb_options \<Rightarrow> CircuitBreaker \<Rightarrow> bool" for options where
  constructed: "cb_reachable options (CircuitBreaker_new options)"
| call_starts:
    "cb_reachable options cb \<Longrightarrow> cb2 = evaluateState now (count_total cb) \<Longrightarrow>
     cb_reachable options (if state cb2 = OPEN then count_rejected cb2 else cb2)"
| call_succeeded:
    "cb_reachable options cb \<Longrightarrow> cb_reachable options (count_successful (onSuccess fin cb))"
| call_failed:
    "cb_reachable options cb \<Longrightarrow> cb_reachable options (count_failed (onFailure fin cb))"
| was_reset:
    "cb_reachable options cb \<Longrightarrow> cb_reachable options (cb_reset cb)"

definition default_cb_options :: cb_options where
  "default_cb_options =
     \<lparr> opt_failureThreshold = None, opt_resetTimeout = None, opt_halfOpenRequests = None \<rparr>"

definition quick_cb_options :: cb_options where
  "quick_cb_options = default_cb_options\<lparr>opt_failureThreshold := Some 1\<rparr>"

text \<open>
  Two breakers decide alike from here on: same configuration, state and the two counters
  that \<^verbatim>\<open>onSuccess\<close> and \<^verbatim>\<open>onFailure\<close> compare, and the same \<open>lastFailureTime\<close> where it is
  read, which is in \<open>OPEN\<close>. \<^verbatim>\<open>halfOpenAttempts\<close> and the statistics are never read.
\<close>

definition cb_alike :: "CircuitBreaker \<Rightarrow> CircuitBreaker \<Rightarrow> bool" where
  "cb_alike a b =
     (failureThreshold a = failureThreshold b \<and> resetTimeout a = resetTimeout b
      \<and> halfOpenRequests a = halfOpenRequests b \<and> state a = state b
      \<and> failureCount a = failureCount b \<and> successCount a = successCount b
      \<and> (state a = OPEN \<longrightarrow> lastFailureTime a = lastFailureTime b))"

text \<open>The breaker and the world in a result of \<^verbatim>\<open>execute\<close> or of a run.\<close>

abbreviation cb_of :: "'a \<times> CircuitBreaker \<times> 'w \<Rightarrow> CircuitBreaker" where
  "cb_of R \<equiv> fst (snd R)"

abbreviation world_of :: "'a \<times> 'b \<times> 'w \<Rightarrow> 'w" where
  "world_of R \<equiv> snd (snd R)"

text \<open>
  Clock readings of five calls: one that opens the circuit, three in a first \<open>HALF_OPEN\<close>
  period, one in a second.
\<close>

definition stale_script :: "(int \<times> int) list" where
  "stale_script = [(0, 5), (30005, 30010), (30020, 30030), (30040, 30050), (60050, 60060)]"

subsection \<open>Bulkhead\<close>

record bh_stats =
  bh_totalRequests :: int
  bh_successfulRequests :: int
  bh_rejectedRequests :: int
  bh_queuedRequests :: int
  maxConcurrentReached :: int

text \<open>
  An entry of the queue. The object holds \<^verbatim>\<open>fn\<close>, \<^verbatim>\<open>operationName\<close>, \<^verbatim>\<open>resolve\<close>, \<^verbatim>\<open>reject\<close>
  and \<^verbatim>\<open>timeout\<close> of one call of \<^verbatim>\<open>execute\<close>; \<open>req_id\<close> is the number of that call and stands
  for them and for the identity of the object.
\<close>

record request =
  req_id :: nat
  timestamp :: int

record Bulkhead =
  name :: string
  maxConcurrent :: int
  maxWait :: int
  queueSize :: int
  currentConcurrent :: int
  queue :: "request list"
  bh_stats :: bh_stats

record bh_options =
  opt_name :: "string option"
  opt_maxConcurrent :: "int option"
  opt_maxWait :: "int option"
  opt_queueSize :: "int option"

definition Bulkhead_new :: "bh_options \<Rightarrow> Bulkhead" where
  "Bulkhead_new options =
     \<lparr> name = or_default_str (opt_name options) ''default'',
       maxConcurrent = or_default (opt_maxConcurrent options) 10,
       maxWait = or_default (opt_maxWait options) 5000,
       queueSize = or_default (opt_queueSize options) 20,
       currentConcurrent = 0,
       queue = [],
       bh_stats = \<lparr> bh_totalRequests = 0, bh_successfulRequests = 0, bh_rejectedRequests = 0,
                    bh_queuedRequests = 0, maxConcurrentReached = 0 \<rparr> \<rparr>"

text \<open>
  What the bulkhead decides for a call: it grants a slot (and invokes \<^verbatim>\<open>fn\<close>, whose outcome
  the caller then gets), or it rejects the promise of the call with an error of its own.
\<close>

datatype bh_decision = SlotGranted | Refused "unit failure"

text \<open>
  The bulkhead in its event loop. Besides the object: the timers set by \<^verbatim>\<open>setTimeout\<close> and
  neither fired nor cleared (call number and due time), the calls whose \<^verbatim>\<open>fn\<close> has been
  invoked and has not settled, the decisions taken so far in order, and the number of
  calls of \<^verbatim>\<open>execute\<close> made.
\<close>

record bh_system =
  bulkhead :: Bulkhead
  timers :: "(nat \<times> int) list"
  running :: "nat list"
  decided :: "(nat \<times> bh_decision) list"
  calls :: nat

definition bh_start :: "bh_options \<Rightarrow> bh_system" where
  "bh_start options =
     \<lparr> bulkhead = Bulkhead_new options, timers = [], running = [], decided = [], calls = 0 \<rparr>"

definition clearTimeout :: "nat \<Rightarrow> (nat \<times> int) list \<Rightarrow> (nat \<times> int) list" where
  "clearTimeout i ts = filter (\<lambda>(j, due). j \<noteq> i) ts"

text \<open>\<^verbatim>\<open>queue.indexOf(request)\<close> and \<^verbatim>\<open>queue.splice(index, 1)\<close>.\<close>

fun indexOf :: "request list \<Rightarrow> nat \<Rightarrow> int" where
  "indexOf [] i = - 1"
| "indexOf (r # q) i =
     (if req_id r = i then 0 else (let k = indexOf q i in if k > - 1 then k + 1 else - 1))"

definition splice1 :: "int \<Rightarrow> request list \<Rightarrow> request list" where
  "splice1 index q = take (nat index) q @ drop (nat index + 1) q"

text \<open>
  \<^verbatim>\<open>executeWithSlot\<close> for call \<open>i\<close>, up to the \<^verbatim>\<open>await fn()\<close>: the slot is taken and \<^verbatim>\<open>fn\<close> is
  invoked in the same turn.
\<close>

definition executeWithSlot :: "nat \<Rightarrow> bh_system \<Rightarrow> bh_system" where
  "executeWithSlot i s =
     (let b = bulkhead s;
          b1 = b\<lparr>currentConcurrent := currentConcurrent b + 1\<rparr>;
          b2 = (if currentConcurrent b1 = maxConcurrent b1
                then b1\<lparr>bh_stats := (bh_stats b1)\<lparr>maxConcurrentReached :=
                                        maxConcurrentReached (bh_stats b1) + 1\<rparr>\<rparr>
                else b1)
      in s\<lparr>bulkhead := b2, running := running s @ [i],
           decided := decided s @ [(i, SlotGranted)]\<rparr>)"

definition releaseSlot :: "bh_system \<Rightarrow> bh_system" where
  "releaseSlot s =
     (let b = bulkhead s
      in if length (queue b) > 0 \<and> currentConcurrent b < maxConcurrent b then
           (case queue b of
              [] \<Rightarrow> s
            | request # rest \<Rightarrow>
                executeWithSlot (req_id request)
                  (s\<lparr>bulkhead := b\<lparr>queue := rest\<rparr>,
                      timers := clearTimeout (req_id request) (timers s)\<rparr>))
         else s)"

text \<open>
  The rest of \<^verbatim>\<open>executeWithSlot\<close> for call \<open>i\<close>, run when its \<^verbatim>\<open>fn\<close> has settled (\<open>ok\<close>:
  it returned): the statistics of a success, then the \<^verbatim>\<open>finally\<close> block.
\<close>

definition fn_settled :: "nat \<Rightarrow> bool \<Rightarrow> bh_system \<Rightarrow> bh_system" where
  "fn_settled i ok s =
     (let b = bulkhead s;
          b1 = (if ok then b\<lparr>bh_stats := (bh_stats b)\<lparr>bh_successfulRequests :=
                                 bh_successfulRequests (bh_stats b) + 1\<rparr>\<rparr>
                else b);
          b2 = b1\<lparr>currentConcurrent := currentConcurrent b1 - 1\<rparr>
      in releaseSlot (s\<lparr>bulkhead := b2, running := remove1 i (running s)\<rparr>))"

definition waitForSlot :: "nat \<Rightarrow> int \<Rightarrow> bh_system \<Rightarrow> bh_system" where
  "waitForSlot i now s =
     (let b = bulkhead s;
          request = \<lparr> req_id = i, timestamp = now \<rparr>;
          b1 = b\<lparr>queue := queue b @ [request],
                 bh_stats := (bh_stats b)\<lparr>bh_queuedRequests := bh_queuedRequests (bh_stats b) + 1\<rparr>\<rparr>
      in s\<lparr>bulkhead := b1, timers := timers s @ [(i, now + maxWait b)]\<rparr>)"

text \<open>The callback given to \<^verbatim>\<open>setTimeout\<close> in \<^verbatim>\<open>waitForSlot\<close> for call \<open>i\<close>, when it runs.\<close>

definition timeout_fires :: "nat \<Rightarrow> bh_system \<Rightarrow> bh_system" where
  "timeout_fires i s =
     (let b = bulkhead s;
          s1 = s\<lparr>timers := clearTimeout i (timers s)\<rparr>;
          index = indexOf (queue b) i
      in if index > - 1
         then s1\<lparr>bulkhead := b\<lparr>queue := splice1 index (queue b),
                                 bh_stats := (bh_stats b)\<lparr>bh_rejectedRequests :=
                                               bh_rejectedRequests (bh_stats b) + 1\<rparr>\<rparr>,
                 decided := decided s @ [(i, Refused BULKHEAD_TIMEOUT)]\<rparr>
         else s1)"

text \<open>
  \<^verbatim>\<open>execute\<close>, up to its first suspension, for the call made at clock \<open>now\<close>; the call gets
  the number \<open>calls s\<close>.
\<close>

definition bh_execute :: "int \<Rightarrow> bh_system \<Rightarrow> bh_system" where
  "bh_execute now s =
     (let i = calls s;
          b = (bulkhead s)\<lparr>bh_stats := (bh_stats (bulkhead s))\<lparr>bh_totalRequests :=
                               bh_totalRequests (bh_stats (bulkhead s)) + 1\<rparr>\<rparr>;
          s1 = s\<lparr>bulkhead := b, calls := Suc i\<rparr>
      in if currentConcurrent b < maxConcurrent b then executeWithSlot i s1
         else if int (length (queue b)) \<ge> queueSize b
         then s1\<lparr>bulkhead := b\<lparr>bh_stats := (bh_stats b)\<lparr>bh_rejectedRequests :=
                                   bh_rejectedRequests (bh_stats b) + 1\<rparr>\<rparr>,
                 decided := decided s1 @ [(i, Refused BULKHEAD_FULL)]\<rparr>
         else waitForSlot i now s1)"

definition bh_reset :: "bh_system \<Rightarrow> bh_system" where
  "bh_reset s =
     (let b = bulkhead s
      in s\<lparr>bulkhead := b\<lparr>currentConcurrent := 0, queue := []\<rparr>,
           timers := fold (\<lambda>req. clearTimeout (req_id req)) (queue b) (timers s)\<rparr>)"

text \<open>
  The turns of the event loop that touch the bulkhead: a call of \<^verbatim>\<open>execute\<close>; the \<^verbatim>\<open>fn\<close> of a
  running call settles; a pending timer that is due fires; \<^verbatim>\<open>reset\<close>. A turn that cannot
  happen in the state (the call is not running, no such timer is pending or due) leaves it
  as it is.
\<close>

datatype bh_input = Call int | Settles nat bool | TimerFires nat int | Reset

fun bh_step :: "bh_input \<Rightarrow> bh_system \<Rightarrow> bh_system" where
  "bh_step (Call now) s = bh_execute now s"
| "bh_step (Settles i ok) s = (if i \<in> set (running s) then fn_settled i ok s else s)"
| "bh_step (TimerFires i now) s =
     (case map_of (timers s) i of
        Some due \<Rightarrow> if due \<le> now then timeout_fires i s else s
      | None \<Rightarrow> s)"
| "bh_step Reset s = bh_reset s"

definition bh_run :: "bh_input list \<Rightarrow> bh_system \<Rightarrow> bh_system" where
  "bh_run xs s = foldl (\<lambda>s x. bh_step x s) s xs"

inductive bh_reachable :: "bh_options \<Rightarrow> bh_system \<Rightarrow> bool" for options where
  started: "bh_reachable options (bh_start options)"
| turn: "bh_reachable options s \<Longrightarrow> bh_reachable options (bh_step x s)"

definition default_bh_options :: bh_options where
  "default_bh_options =
     \<lparr> opt_name = None, opt_maxConcurrent = None, opt_maxWait = None, opt_queueSize = None \<rparr>"

definition tiny_bh_options :: bh_options where
  "tiny_bh_options = default_bh_options\<lparr>opt_maxConcurrent := Some 1, opt_queueSize := Some 1\<rparr>"


section \<open>Properties\<close>

subsection \<open>RetryPattern\<close>

declare retry_loop.simps [simp del]
lemma sleeps_append: "sleeps (xs @ ys) = sleeps xs @ sleeps ys"
  by (induction xs rule: sleeps.induct) auto

lemma invocations_append: "invocations (xs @ ys) = invocations xs + invocations ys"
  by (simp add: invocations_def)

lemma count_simps [simp]:
  "maxRetries (count_attempt p) = maxRetries p"
  "backoffMultiplier (count_attempt p) = backoffMultiplier p"
  "maxDelay (count_attempt p) = maxDelay p"
  "delay (count_attempt p) = delay p"
  by (simp_all add: count_attempt_def)

lemma backoff_step_count [simp]: "backoff_step (count_attempt p) = backoff_step p"
  by (rule ext) (simp add: backoff_step_def)

lemma map_funpow_Cons:
  "map (\<lambda>n. (f ^^ n) x) [0..<Suc m] = x # map (\<lambda>n. (f ^^ n) (f x)) [0..<m]"
proof -
  have "map (\<lambda>n. (f ^^ n) x) [0..<Suc m] = (f ^^ 0) x # map (\<lambda>n. (f ^^ n) x) (map Suc [0..<m])"
    by (simp only: upt_conv_Cons[of 0 "Suc m"] map_Suc_upt list.map)
  also have "\<dots> = x # map (\<lambda>n. (f ^^ n) (f x)) [0..<m]"
    by (simp add: funpow_swap1)
  finally show ?thesis .
qed


lemma world_after_Suc: "world_after fn (Suc n) w = world_after fn n (snd (fn w))"
  using funpow_swap1[of "\<lambda>v. snd (fn v)" n w] by (simp add: world_after_def)

lemma world_after_0 [simp]: "world_after fn 0 w = w"
  by (simp add: world_after_def)

lemma retry_loop_fail_step:
  assumes "fn w = (Inl e, w')" "attempt \<le> maxRetries p"
  shows "retry_loop fn attempt cd le p w tr =
           retry_loop fn (attempt + 1) (backoff_step p cd) (Some e) (count_attempt p) w'
             (tr @ [Invoke, Sleep cd])"
  using assms by (simp add: retry_loop.simps[of fn attempt] Let_def backoff_step_def)

lemma retry_loop_success:
  assumes "\<forall>j<k. isl (fst (fn (world_after fn j w)))"
    and "fst (fn (world_after fn k w)) = Inr r"
    and "attempt + int k \<le> maxRetries p + 1"
  shows "fst (retry_loop fn attempt cd le p w tr) = Inr r
       \<and> fst (snd (snd (retry_loop fn attempt cd le p w tr))) = world_after fn (Suc k) w
       \<and> invocations (snd (snd (snd (retry_loop fn attempt cd le p w tr)))) = invocations tr + Suc k"
  using assms
proof (induction k arbitrary: attempt cd le p w tr)
  case 0
  obtain oc w' where fw: "fn w = (oc, w')" by (cases "fn w")
  with 0 show ?case
    by (simp add: retry_loop.simps[of fn attempt] Let_def invocations_def world_after_def)
next
  case (Suc k)
  from Suc.prems(1) have "isl (fst (fn (world_after fn 0 w)))" by blast
  then obtain e w' where fw: "fn w = (Inl e, w')"
    by (cases "fn w") (auto simp: isl_def)
  have le: "attempt \<le> maxRetries p" using Suc.prems(3) by simp
  have a: "\<forall>j<k. isl (fst (fn (world_after fn j w')))"
    using Suc.prems(1) fw by (auto simp: world_after_Suc dest: spec[of _ "Suc _"])
  have b: "fst (fn (world_after fn k w')) = Inr r"
    using Suc.prems(2) fw by (simp add: world_after_Suc)
  have c: "attempt + 1 + int k \<le> maxRetries (count_attempt p) + 1"
    using Suc.prems(3) by simp
  from Suc.IH[OF a b c, of "backoff_step p cd" "Some e" "tr @ [Invoke, Sleep cd]"]
  show ?case
    unfolding retry_loop_fail_step[where fn=fn and w=w, OF fw le]
    using fw by (simp add: world_after_Suc invocations_def)
qed

lemma retry_loop_exhausted:
  assumes "\<forall>j\<le>k. isl (fst (fn (world_after fn j w)))"
    and "attempt + int k = maxRetries p + 1"
  shows "fst (retry_loop fn attempt cd le p w tr) = Inl (Some (projl (fst (fn (world_after fn k w)))))
       \<and> fst (snd (snd (retry_loop fn attempt cd le p w tr))) = world_after fn (Suc k) w
       \<and> invocations (snd (snd (snd (retry_loop fn attempt cd le p w tr)))) = invocations tr + Suc k"
  using assms
proof (induction k arbitrary: attempt cd le p w tr)
  case 0
  from 0(1) obtain e w' where fw: "fn w = (Inl e, w')"
    by (cases "fn w") (auto simp: isl_def)
  with 0 show ?case
    by (simp add: retry_loop.simps[of fn attempt] retry_loop.simps[of fn "maxRetries p + 1"]
          Let_def invocations_def world_after_def)
next
  case (Suc k)
  from Suc.prems(1) have "isl (fst (fn (world_after fn 0 w)))" by blast
  then obtain e w' where fw: "fn w = (Inl e, w')"
    by (cases "fn w") (auto simp: isl_def)
  have le: "attempt \<le> maxRetries p" using Suc.prems(2) by simp
  have a: "\<forall>j\<le>k. isl (fst (fn (world_after fn j w')))"
    using Suc.prems(1) fw by (auto simp: world_after_Suc dest: spec[of _ "Suc _"])
  have c: "attempt + 1 + int k = maxRetries (count_attempt p) + 1"
    using Suc.prems(2) by simp
  from Suc.IH[OF a c, of "backoff_step p cd" "Some e" "tr @ [Invoke, Sleep cd]"]
  show ?case
    unfolding retry_loop_fail_step[where fn=fn and w=w, OF fw le]
    using fw by (simp add: world_after_Suc invocations_def)
qed

lemma backoff_closed_form:
  assumes "d \<le> maxDelay p" "1 \<le> backoffMultiplier p"
  shows "(backoff_step p ^^ n) d = min (d * backoffMultiplier p ^ n) (maxDelay p)"
proof (induction n)
  case 0
  with assms show ?case by simp
next
  case (Suc n)
  let ?m = "backoffMultiplier p" and ?M = "maxDelay p"
  have st: "(backoff_step p ^^ Suc n) d = min ((backoff_step p ^^ n) d * ?m) ?M"
    unfolding funpow.simps o_def by (rule backoff_step_def)
  show ?case
  proof (cases "d * ?m ^ n \<le> ?M")
    case True
    with Suc show ?thesis unfolding st by (simp add: mult_ac)
  next
    case False
    then have gt: "?M < d * ?m ^ n" by simp
    have pow: "1 \<le> ?m ^ n" using assms(2) by simp
    have dpos: "0 < d"
    proof (rule ccontr)
      assume "\<not> 0 < d"
      then have "d * ?m ^ n \<le> d * 1"
        using pow by (intro mult_left_mono_neg) auto
      with assms(1) gt show False by simp
    qed
    then have Mpos: "0 < ?M" using assms(1) by simp
    have "?M * 1 \<le> ?M * ?m" using Mpos assms(2) by (intro mult_left_mono) auto
    then have s1: "min (?M * ?m) ?M = ?M" by simp
    have "d * ?m ^ n * 1 \<le> d * ?m ^ n * ?m"
      using dpos pow assms(2) by (intro mult_left_mono) auto
    then have s2: "min (d * ?m ^ Suc n) ?M = ?M" using gt by (simp add: mult_ac)
    from Suc gt have "(backoff_step p ^^ n) d = ?M" by simp
    then show ?thesis unfolding st using s1 s2 by simp
  qed
qed


lemma sleeps_attempts_trace: "sleeps (attempts_trace ds) = ds"
  by (induction ds) (simp_all add: attempts_trace_def)

lemma invocations_attempts_trace: "invocations (attempts_trace ds) = Suc (length ds)"
  by (induction ds) (simp_all add: attempts_trace_def invocations_def)

lemma retry_loop_trace:
  "attempt \<le> maxRetries p + 1 \<Longrightarrow>
   \<exists>ds. trace_of (retry_loop fn attempt cd le p w tr) = tr @ attempts_trace ds
        \<and> ds = map (\<lambda>n. (backoff_step p ^^ n) cd) [0..<length ds]"
proof (induction fn attempt cd le p w tr rule: retry_loop.induct)
  case (1 fn attempt cd le p w tr)
  note le = \<open>attempt \<le> maxRetries p + 1\<close>
  obtain oc w' where fw: "fn w = (oc, w')" by (cases "fn w")
  show ?case
  proof (cases oc)
    case (Inr r)
    with le fw show ?thesis
      by (intro exI[of _ "[]"]) (simp add: retry_loop.simps[of fn attempt] Let_def attempts_trace_def)
  next
    case (Inl e)
    show ?thesis
    proof (cases "attempt > maxRetries p")
      case True
      with le fw Inl show ?thesis
        by (intro exI[of _ "[]"]) (simp add: retry_loop.simps[of fn attempt] Let_def attempts_trace_def)
    next
      case False
      then have le': "attempt \<le> maxRetries p" by simp
      have nlt: "\<not> maxRetries (count_attempt p) < attempt" using False by simp
      have fold: "min (cd * backoffMultiplier (count_attempt p)) (maxDelay (count_attempt p)) = backoff_step p cd"
        by (simp add: backoff_step_def)
      have le2: "attempt + 1 \<le> maxRetries (count_attempt p) + 1" using False by simp
      from "1.IH"[OF le refl fw[symmetric] Inl nlt le2]
      obtain ds where ds:
        "trace_of (retry_loop fn (attempt + 1) (backoff_step p cd) (Some e) (count_attempt p) w'
            (tr @ [Invoke, Sleep cd])) = (tr @ [Invoke, Sleep cd]) @ attempts_trace ds"
        "ds = map (\<lambda>n. (backoff_step p ^^ n) (backoff_step p cd)) [0..<length ds]"
        unfolding fold by auto
      have "cd # ds = map (\<lambda>n. (backoff_step p ^^ n) cd) [0..<length (cd # ds)]"
        using ds(2) map_funpow_Cons[of "backoff_step p" cd "length ds"] by simp
      moreover have "trace_of (retry_loop fn attempt cd le p w tr) = tr @ attempts_trace (cd # ds)"
        using ds(1) unfolding retry_loop_fail_step[where fn=fn and w=w, OF fw[unfolded Inl] le']
        by (simp add: attempts_trace_def)
      ultimately show ?thesis by (intro exI[of _ "cd # ds"] conjI)
    qed
  qed
qed

lemma retry_execute_sleeps:
  "sleeps (trace_of (retry_execute p fn w))
     = map (\<lambda>n. (backoff_step p ^^ n) (delay p)) [0..<length (sleeps (trace_of (retry_execute p fn w)))]"
proof (cases "1 \<le> maxRetries p + 1")
  case True
  from retry_loop_trace[OF True, of fn "delay p" None w "[]"]
  obtain ds where "trace_of (retry_execute p fn w) = attempts_trace ds"
    "ds = map (\<lambda>n. (backoff_step p ^^ n) (delay p)) [0..<length ds]"
    by (auto simp: retry_execute_def)
  then show ?thesis by (simp add: sleeps_attempts_trace)
next
  case False
  then show ?thesis by (simp add: retry_execute_def retry_loop.simps[of fn 1])
qed

text \<open>
  Claim C3. With \<open>0 \<le> maxRetries\<close>: an operation that fails on every invocation is
  invoked exactly \<open>maxRetries + 1\<close> times and \<^verbatim>\<open>execute\<close> throws the very error of
  the last of these invocations; and when the invocations before the \<open>(k+1)\<close>-th fail
  and that one succeeds (\<open>k \<le> maxRetries\<close>), its result is returned and it was the last
  invocation.
\<close>

theorem retry_execute_attempts:
  assumes "0 \<le> maxRetries p"
  shows "(always_fails fn \<longrightarrow>
            fst (retry_execute p fn w)
              = Inl (Some (projl (fst (fn (world_after fn (nat (maxRetries p)) w)))))
          \<and> invocations (trace_of (retry_execute p fn w)) = nat (maxRetries p) + 1)
       \<and> (\<forall>k r. int k \<le> maxRetries p
                \<and> (\<forall>j<k. isl (fst (fn (world_after fn j w))))
                \<and> fst (fn (world_after fn k w)) = Inr r
             \<longrightarrow> fst (retry_execute p fn w) = Inr r
               \<and> invocations (trace_of (retry_execute p fn w)) = k + 1)"
proof (intro conjI impI allI)
  assume af: "always_fails fn"
  then have a: "\<forall>j\<le>nat (maxRetries p). isl (fst (fn (world_after fn j w)))"
    by (simp add: always_fails_def)
  have b: "1 + int (nat (maxRetries p)) = maxRetries p + 1" using assms by simp
  from retry_loop_exhausted[OF a b, of "delay p" None "[]"]
  show "fst (retry_execute p fn w)
          = Inl (Some (projl (fst (fn (world_after fn (nat (maxRetries p)) w)))))"
    and "invocations (trace_of (retry_execute p fn w)) = nat (maxRetries p) + 1"
    by (simp_all add: retry_execute_def invocations_def)
next
  fix k r
  assume h: "int k \<le> maxRetries p
                \<and> (\<forall>j<k. isl (fst (fn (world_after fn j w))))
                \<and> fst (fn (world_after fn k w)) = Inr r"
  then have c: "1 + int k \<le> maxRetries p + 1" by simp
  from h retry_loop_success[OF _ _ c, of fn w r "delay p" None "[]"]
  show "fst (retry_execute p fn w) = Inr r"
    and "invocations (trace_of (retry_execute p fn w)) = k + 1"
    by (simp_all add: retry_execute_def invocations_def)
qed

lemma always_fails_failing_op: "always_fails failing_op"
  by (simp add: always_fails_def failing_op_def)

lemma world_after_failing_op: "world_after failing_op n w = w + n"
  by (induction n arbitrary: w) (simp_all add: world_after_Suc failing_op_def)

theorem retry_execute_attempts_witness:
  "0 \<le> maxRetries (RetryPattern_new default_retry_options)
   \<and> always_fails failing_op
   \<and> fst (retry_execute (RetryPattern_new default_retry_options) failing_op 0) = Inl (Some 3)
   \<and> invocations (trace_of (retry_execute (RetryPattern_new default_retry_options) failing_op 0)) = 4
   \<and> fst (retry_execute (RetryPattern_new default_retry_options) scripted_op ([False, False, True], 0)) = Inr 2
   \<and> invocations (trace_of (retry_execute (RetryPattern_new default_retry_options) scripted_op ([False, False, True], 0))) = 3"
proof -
  let ?p = "RetryPattern_new default_retry_options"
  have m: "maxRetries ?p = 3"
    by (simp add: RetryPattern_new_def default_retry_options_def or_default_def)
  have s: "int 2 \<le> maxRetries ?p
           \<and> (\<forall>j<2. isl (fst (scripted_op (world_after scripted_op j ([False, False, True], 0)))))
           \<and> fst (scripted_op (world_after scripted_op 2 ([False, False, True], 0))) = Inr 2"
    by (simp add: m world_after_def numeral_2_eq_2 less_Suc_eq)
  have m0: "0 \<le> maxRetries ?p" by (simp add: m)
  from retry_execute_attempts[OF m0, of failing_op 0]
    retry_execute_attempts[OF m0, of scripted_op "([False, False, True], 0)",
      THEN conjunct2, rule_format, of 2 2, OF s]
  show ?thesis
    by (simp add: m always_fails_failing_op world_after_failing_op failing_op_def)
qed


text \<open>
  Claim C7, as amended. The delays slept by \<^verbatim>\<open>execute\<close>, in order: the first is
  \<^verbatim>\<open>delay\<close> as configured (not capped), each later one is the one before times
  \<^verbatim>\<open>backoffMultiplier\<close>, capped at \<^verbatim>\<open>maxDelay\<close>. When \<open>delay \<le> maxDelay\<close> and
  \<open>1 \<le> backoffMultiplier\<close> the \<open>n\<close>-th delay (counted from 0) is
  \<open>min (delay * backoffMultiplier ^ n) maxDelay\<close>. Every delay lies between two
  invocations, and an operation that always fails is slept for \<open>maxRetries\<close> times.
\<close>

theorem retry_backoff_delays:
  "(\<forall>n<length (sleeps (trace_of (retry_execute p fn w))).
       sleeps (trace_of (retry_execute p fn w)) ! n
         = (if n = 0 then delay p
            else min (sleeps (trace_of (retry_execute p fn w)) ! (n - 1) * backoffMultiplier p)
                   (maxDelay p)))
   \<and> (delay p \<le> maxDelay p \<and> 1 \<le> backoffMultiplier p \<longrightarrow>
        (\<forall>n<length (sleeps (trace_of (retry_execute p fn w))).
           sleeps (trace_of (retry_execute p fn w)) ! n
             = min (delay p * backoffMultiplier p ^ n) (maxDelay p)))
   \<and> (0 \<le> maxRetries p \<longrightarrow>
        trace_of (retry_execute p fn w)
          = attempts_trace (sleeps (trace_of (retry_execute p fn w))))
   \<and> (0 \<le> maxRetries p \<and> always_fails fn \<longrightarrow>
        length (sleeps (trace_of (retry_execute p fn w))) = nat (maxRetries p))"
proof -
  let ?S = "sleeps (trace_of (retry_execute p fn w))"
  have S: "?S = map (\<lambda>n. (backoff_step p ^^ n) (delay p)) [0..<length ?S]"
    by (rule retry_execute_sleeps)
  have nth: "?S ! n = (backoff_step p ^^ n) (delay p)" if "n < length ?S" for n
    using that by (subst S) simp
  have rec: "\<forall>n<length ?S. ?S ! n
         = (if n = 0 then delay p else min (?S ! (n - 1) * backoffMultiplier p) (maxDelay p))"
  proof (intro allI impI)
    fix n assume n: "n < length ?S"
    show "?S ! n = (if n = 0 then delay p else min (?S ! (n - 1) * backoffMultiplier p) (maxDelay p))"
    proof (cases n)
      case 0
      with n nth[of 0] show ?thesis by simp
    next
      case (Suc m)
      have "(backoff_step p ^^ Suc m) (delay p)
              = min ((backoff_step p ^^ m) (delay p) * backoffMultiplier p) (maxDelay p)"
        unfolding funpow.simps o_def by (rule backoff_step_def)
      with n Suc nth[of n] nth[of m] show ?thesis by simp
    qed
  qed
  have closed: "delay p \<le> maxDelay p \<and> 1 \<le> backoffMultiplier p \<longrightarrow>
        (\<forall>n<length ?S. ?S ! n = min (delay p * backoffMultiplier p ^ n) (maxDelay p))"
    using nth backoff_closed_form[of "delay p" p] by simp
  have shape: "0 \<le> maxRetries p \<longrightarrow> trace_of (retry_execute p fn w) = attempts_trace ?S"
  proof
    assume "0 \<le> maxRetries p"
    then have "1 \<le> maxRetries p + 1" by simp
    from retry_loop_trace[OF this, of fn "delay p" None w "[]"]
    show "trace_of (retry_execute p fn w) = attempts_trace ?S"
      by (auto simp: retry_execute_def sleeps_attempts_trace)
  qed
  have len: "0 \<le> maxRetries p \<and> always_fails fn \<longrightarrow> length ?S = nat (maxRetries p)"
  proof
    assume h: "0 \<le> maxRetries p \<and> always_fails fn"
    with shape have "invocations (trace_of (retry_execute p fn w)) = Suc (length ?S)"
      using invocations_attempts_trace[of ?S] by simp
    moreover have "invocations (trace_of (retry_execute p fn w)) = nat (maxRetries p) + 1"
    proof -
      have a: "\<forall>j\<le>nat (maxRetries p). isl (fst (fn (world_after fn j w)))"
        using h by (simp add: always_fails_def)
      have b: "1 + int (nat (maxRetries p)) = maxRetries p + 1" using h by simp
      from retry_loop_exhausted[OF a b, of "delay p" None "[]"]
      show ?thesis by (simp add: retry_execute_def invocations_def)
    qed
    ultimately show "length ?S = nat (maxRetries p)" by simp
  qed
  from rec closed shape len show ?thesis by blast
qed

lemma capped_run:
  "sleeps (trace_of (retry_execute (RetryPattern_new capped_retry_options) failing_op 0)) = [1000, 2000, 4000, 8000, 10000]"
  by (simp add: retry_execute_def RetryPattern_new_def capped_retry_options_def default_retry_options_def or_default_def
        retry_loop.simps failing_op_def count_attempt_def count_failedAfterRetries_def Let_def)

text \<open>
  Claim C7 as stated fails when \<^verbatim>\<open>delay\<close> exceeds \<^verbatim>\<open>maxDelay\<close>: with
  \<^verbatim>\<open>{delay: 20000}\<close> the first sleep is 20000 ms, the stated formula gives 10000.
\<close>

theorem retry_first_delay_uncapped:
  "sleeps (trace_of (retry_execute (RetryPattern_new long_delay_retry_options) failing_op 0)) ! 0 = 20000
   \<and> min (delay (RetryPattern_new long_delay_retry_options)
            * backoffMultiplier (RetryPattern_new long_delay_retry_options) ^ 0)
          (maxDelay (RetryPattern_new long_delay_retry_options)) = 10000"
  by (simp add: retry_execute_def RetryPattern_new_def long_delay_retry_options_def default_retry_options_def or_default_def
        retry_loop.simps failing_op_def count_attempt_def count_failedAfterRetries_def Let_def)


theorem retry_backoff_delays_witness:
  "delay (RetryPattern_new capped_retry_options) \<le> maxDelay (RetryPattern_new capped_retry_options)
   \<and> 1 \<le> backoffMultiplier (RetryPattern_new capped_retry_options)
   \<and> 0 \<le> maxRetries (RetryPattern_new capped_retry_options)
   \<and> always_fails failing_op
   \<and> length (sleeps (trace_of (retry_execute (RetryPattern_new capped_retry_options) failing_op 0))) = 5
   \<and> sleeps (trace_of (retry_execute (RetryPattern_new capped_retry_options) failing_op 0)) ! 4
        = min (delay (RetryPattern_new capped_retry_options)
                * backoffMultiplier (RetryPattern_new capped_retry_options) ^ 4)
              (maxDelay (RetryPattern_new capped_retry_options))
   \<and> sleeps (trace_of (retry_execute (RetryPattern_new capped_retry_options) failing_op 0)) ! 4 = 10000
   \<and> sleeps (trace_of (retry_execute (RetryPattern_new capped_retry_options) failing_op 0)) ! 3
        = min (sleeps (trace_of (retry_execute (RetryPattern_new capped_retry_options) failing_op 0)) ! 2
                * backoffMultiplier (RetryPattern_new capped_retry_options))
              (maxDelay (RetryPattern_new capped_retry_options))"
  using retry_backoff_delays[of "RetryPattern_new capped_retry_options" failing_op 0]
  by (simp add: capped_run always_fails_failing_op)
     (simp add: RetryPattern_new_def capped_retry_options_def default_retry_options_def or_default_def)

subsection \<open>RateLimiter\<close>

lemma tryAcquire_allowed:
  "fst (tryAcquire now rl)
     = (int (length (filter (\<lambda>t. now - windowMs rl < t) (requests rl))) < maxRequests rl)"
  by (auto simp: tryAcquire_def cleanupOldRequests_def Let_def)

lemma tryAcquire_requests:
  "requests (snd (tryAcquire now rl))
     = (if fst (tryAcquire now rl)
        then filter (\<lambda>t. now - windowMs rl < t) (requests rl) @ [now]
        else filter (\<lambda>t. now - windowMs rl < t) (requests rl))"
  by (auto simp: tryAcquire_def cleanupOldRequests_def Let_def)

lemma tryAcquire_config [simp]:
  "maxRequests (snd (tryAcquire now rl)) = maxRequests rl"
  "windowMs (snd (tryAcquire now rl)) = windowMs rl"
  by (auto simp: tryAcquire_def cleanupOldRequests_def Let_def)

lemma tryAcquire_seq_Cons:
  "tryAcquire_seq (now # ts) rl =
     (fst (tryAcquire now rl) # fst (tryAcquire_seq ts (snd (tryAcquire now rl))),
      snd (tryAcquire_seq ts (snd (tryAcquire now rl))))"
  by (simp add: case_prod_beta)

declare tryAcquire_seq.simps(2) [simp del]

lemma tryAcquire_seq_append:
  "tryAcquire_seq (ts @ us) rl =
     (fst (tryAcquire_seq ts rl) @ fst (tryAcquire_seq us (snd (tryAcquire_seq ts rl))),
      snd (tryAcquire_seq us (snd (tryAcquire_seq ts rl))))"
  by (induction ts arbitrary: rl) (simp_all add: tryAcquire_seq_Cons)

lemma tryAcquire_seq_all_admitted:
  assumes "\<forall>x\<in>set (requests rl @ ts). \<forall>t\<in>set ts. t - windowMs rl < x"
    and "int (length (requests rl) + length ts) \<le> maxRequests rl"
  shows "fst (tryAcquire_seq ts rl) = replicate (length ts) True
       \<and> requests (snd (tryAcquire_seq ts rl)) = requests rl @ ts
       \<and> maxRequests (snd (tryAcquire_seq ts rl)) = maxRequests rl
       \<and> windowMs (snd (tryAcquire_seq ts rl)) = windowMs rl"
  using assms
proof (induction ts arbitrary: rl)
  case Nil
  then show ?case by simp
next
  case (Cons now ts)
  have keep: "filter (\<lambda>t. now - windowMs rl < t) (requests rl) = requests rl"
    using Cons.prems(1) by (auto simp: filter_id_conv)
  have adm: "fst (tryAcquire now rl)"
    using Cons.prems(2) by (simp add: tryAcquire_allowed keep)
  have req: "requests (snd (tryAcquire now rl)) = requests rl @ [now]"
    using adm by (simp add: tryAcquire_requests keep)
  have a: "\<forall>x\<in>set (requests (snd (tryAcquire now rl)) @ ts). \<forall>t\<in>set ts.
             t - windowMs (snd (tryAcquire now rl)) < x"
    using Cons.prems(1) by (auto simp: req)
  have b: "int (length (requests (snd (tryAcquire now rl))) + length ts)
             \<le> maxRequests (snd (tryAcquire now rl))"
    using Cons.prems(2) by (simp add: req)
  from Cons.IH[OF a b] adm show ?case
    by (simp add: tryAcquire_seq_Cons req)
qed

lemma tryAcquire_seq_window:
  assumes h: "requests rl = [] \<and> ts \<noteq> [] \<and> int (length ts) = maxRequests rl
        \<and> sorted (ts @ [t']) \<and> t' - hd ts < windowMs rl"
  shows "fst (tryAcquire_seq (ts @ [t']) rl) = replicate (length ts) True @ [False]"
    and "requests (snd (tryAcquire_seq (ts @ [t']) rl)) = ts"
    and "\<forall>t''. hd ts + windowMs rl \<le> t'' \<longrightarrow>
               fst (tryAcquire t'' (snd (tryAcquire_seq (ts @ [t']) rl)))"
proof -
  let ?rl10 = "snd (tryAcquire_seq ts rl)"
  from h obtain t1 rest where ts: "ts = t1 # rest" by (cases ts) auto
  have lo: "\<forall>x\<in>set ts. t1 \<le> x" using h ts by (auto simp: sorted_append)
  have hi: "\<forall>t\<in>set ts. t \<le> t'" using h by (auto simp: sorted_append)
  have win: "t' - t1 < windowMs rl" using h ts by simp
  have a: "\<forall>x\<in>set (requests rl @ ts). \<forall>t\<in>set ts. t - windowMs rl < x"
  proof (intro ballI)
    fix x t assume "x \<in> set (requests rl @ ts)" "t \<in> set ts"
    with h lo hi have "t1 \<le> x" "t \<le> t'" by auto
    with win show "t - windowMs rl < x" by linarith
  qed
  have b: "int (length (requests rl) + length ts) \<le> maxRequests rl" using h by simp
  note first = tryAcquire_seq_all_admitted[OF a b]
  have req10: "requests ?rl10 = ts" using first h by simp
  have cfg10: "windowMs ?rl10 = windowMs rl" "maxRequests ?rl10 = maxRequests rl"
    using first by simp_all
  have keep: "filter (\<lambda>t. t' - windowMs rl < t) ts = ts"
  proof -
    have "\<forall>x\<in>set ts. t' - windowMs rl < x" using lo win by force
    then show ?thesis by (simp add: filter_id_conv)
  qed
  have rej: "\<not> fst (tryAcquire t' ?rl10)"
    using h by (simp add: tryAcquire_allowed cfg10 req10 keep)
  have req11: "requests (snd (tryAcquire t' ?rl10)) = ts"
    using rej by (simp add: tryAcquire_requests cfg10 req10 keep)
  show "fst (tryAcquire_seq (ts @ [t']) rl) = replicate (length ts) True @ [False]"
    using first rej by (simp add: tryAcquire_seq_append tryAcquire_seq_Cons)
  show "requests (snd (tryAcquire_seq (ts @ [t']) rl)) = ts"
    using req11 by (simp add: tryAcquire_seq_append tryAcquire_seq_Cons)
  show "\<forall>t''. hd ts + windowMs rl \<le> t'' \<longrightarrow>
               fst (tryAcquire t'' (snd (tryAcquire_seq (ts @ [t']) rl)))"
  proof (intro allI impI)
    fix t'' assume late: "hd ts + windowMs rl \<le> t''"
    let ?rl11 = "snd (tryAcquire t' ?rl10)"
    have cfg: "windowMs ?rl11 = windowMs rl" "maxRequests ?rl11 = maxRequests rl"
      using cfg10 by simp_all
    have "filter (\<lambda>t. t'' - windowMs rl < t) ts = filter (\<lambda>t. t'' - windowMs rl < t) rest"
      using late ts by simp
    then have "length (filter (\<lambda>t. t'' - windowMs rl < t) ts) \<le> length rest"
      by simp
    then have "int (length (filter (\<lambda>t. t'' - windowMs rl < t) ts)) < maxRequests rl"
      using h ts by simp
    then have "fst (tryAcquire t'' ?rl11)"
      by (simp add: tryAcquire_allowed cfg10 req11)
    then show "fst (tryAcquire t'' (snd (tryAcquire_seq (ts @ [t']) rl)))"
      by (simp add: tryAcquire_seq_append tryAcquire_seq_Cons)
  qed
qed

text \<open>
  Claim C4. \<^verbatim>\<open>tryAcquire\<close> keeps exactly the timestamps \<open>t\<close> with \<open>now - windowMs < t\<close>;
  it admits when fewer than \<^verbatim>\<open>maxRequests\<close> of them remain and then appends \<open>now\<close>, and
  otherwise rejects and appends nothing. So when a fresh limiter is called \<^verbatim>\<open>maxRequests\<close>
  times at the clock readings \<open>ts\<close> and once more at \<open>t'\<close>, less than \<^verbatim>\<open>windowMs\<close> after
  the first call, all calls but the last are admitted and the last is rejected; and a call
  at least \<^verbatim>\<open>windowMs\<close> after the first admission is admitted again.
\<close>

theorem rate_limiter_window:
  "fst (tryAcquire now rl)
     = (int (length (filter (\<lambda>t. now - windowMs rl < t) (requests rl))) < maxRequests rl)
   \<and> requests (snd (tryAcquire now rl))
     = (if fst (tryAcquire now rl)
        then filter (\<lambda>t. now - windowMs rl < t) (requests rl) @ [now]
        else filter (\<lambda>t. now - windowMs rl < t) (requests rl))
   \<and> (requests rl = [] \<and> ts \<noteq> [] \<and> int (length ts) = maxRequests rl
        \<and> sorted (ts @ [t']) \<and> t' - hd ts < windowMs rl \<longrightarrow>
        fst (tryAcquire_seq (ts @ [t']) rl) = replicate (length ts) True @ [False]
        \<and> requests (snd (tryAcquire_seq (ts @ [t']) rl)) = ts
        \<and> (\<forall>t''. hd ts + windowMs rl \<le> t'' \<longrightarrow>
               fst (tryAcquire t'' (snd (tryAcquire_seq (ts @ [t']) rl)))))"
proof (intro conjI impI)
  show "fst (tryAcquire now rl)
     = (int (length (filter (\<lambda>t. now - windowMs rl < t) (requests rl))) < maxRequests rl)"
    by (rule tryAcquire_allowed)
  show "requests (snd (tryAcquire now rl))
     = (if fst (tryAcquire now rl)
        then filter (\<lambda>t. now - windowMs rl < t) (requests rl) @ [now]
        else filter (\<lambda>t. now - windowMs rl < t) (requests rl))"
    by (rule tryAcquire_requests)
next
  assume h: "requests rl = [] \<and> ts \<noteq> [] \<and> int (length ts) = maxRequests rl
        \<and> sorted (ts @ [t']) \<and> t' - hd ts < windowMs rl"
  from tryAcquire_seq_window[OF h]
  show "fst (tryAcquire_seq (ts @ [t']) rl) = replicate (length ts) True @ [False]"
    and "requests (snd (tryAcquire_seq (ts @ [t']) rl)) = ts"
    and "\<forall>t''. hd ts + windowMs rl \<le> t'' \<longrightarrow>
               fst (tryAcquire t'' (snd (tryAcquire_seq (ts @ [t']) rl)))"
    by simp_all
qed

theorem rate_limiter_window_witness:
  "requests (RateLimiter_new default_rl_options) = []
   \<and> [0, 1, 2, 3, 4, 5, 6, 7, 8, 9] \<noteq> ([] :: int list)
   \<and> int (length [0, 1, 2, 3, 4, 5, 6, 7, 8, 9 :: int]) = maxRequests (RateLimiter_new default_rl_options)
   \<and> sorted ([0, 1, 2, 3, 4, 5, 6, 7, 8, 9] @ [59999 :: int])
   \<and> 59999 - hd [0, 1, 2, 3, 4, 5, 6, 7, 8, 9] < windowMs (RateLimiter_new default_rl_options)
   \<and> fst (tryAcquire_seq ([0, 1, 2, 3, 4, 5, 6, 7, 8, 9] @ [59999]) (RateLimiter_new default_rl_options))
       = [True, True, True, True, True, True, True, True, True, True, False]
   \<and> (hd [0, 1, 2, 3, 4, 5, 6, 7, 8, 9] + windowMs (RateLimiter_new default_rl_options) \<le> 60000
        \<and> fst (tryAcquire 60000
             (snd (tryAcquire_seq ([0, 1, 2, 3, 4, 5, 6, 7, 8, 9] @ [59999]) (RateLimiter_new default_rl_options)))))"
proof -
  let ?rl = "RateLimiter_new default_rl_options"
  have cfg: "requests ?rl = []" "maxRequests ?rl = 10" "windowMs ?rl = 60000"
    by (simp_all add: RateLimiter_new_def default_rl_options_def or_default_def)
  have h: "requests ?rl = [] \<and> [0, 1, 2, 3, 4, 5, 6, 7, 8, 9] \<noteq> ([] :: int list)
      \<and> int (length [0, 1, 2, 3, 4, 5, 6, 7, 8, 9 :: int]) = maxRequests ?rl
      \<and> sorted ([0, 1, 2, 3, 4, 5, 6, 7, 8, 9] @ [59999 :: int])
      \<and> 59999 - hd [0, 1, 2, 3, 4, 5, 6, 7, 8, 9] < windowMs ?rl"
    by (simp add: cfg)
  from rate_limiter_window[of 0 ?rl "[0, 1, 2, 3, 4, 5, 6, 7, 8, 9]" 59999,
      THEN conjunct2, THEN conjunct2, rule_format, OF h]
  show ?thesis using h by (simp add: cfg numeral_eq_Suc)
qed

subsection \<open>CircuitBreaker\<close>

lemmas cb_defs = cb_execute_def evaluateState_def onSuccess_def onFailure_def changeState_def
  resetCounts_def count_total_def count_rejected_def count_successful_def count_failed_def

lemma cb_run_Cons:
  "cb_run fn ((now, fin) # ts) cb w =
     (fst (cb_execute fn now fin cb w)
        # fst (cb_run fn ts (cb_of (cb_execute fn now fin cb w)) (world_of (cb_execute fn now fin cb w))),
      snd (cb_run fn ts (cb_of (cb_execute fn now fin cb w)) (world_of (cb_execute fn now fin cb w))))"
  by (simp add: case_prod_beta)

declare cb_run.simps(2) [simp del]

lemma cb_execute_config [simp]:
  "failureThreshold (cb_of (cb_execute fn now fin cb w)) = failureThreshold cb"
  "resetTimeout (cb_of (cb_execute fn now fin cb w)) = resetTimeout cb"
  "halfOpenRequests (cb_of (cb_execute fn now fin cb w)) = halfOpenRequests cb"
  by (auto simp: cb_defs Let_def split: prod.splits sum.splits)

lemma cb_execute_closed_failure:
  assumes "state cb = CLOSED" "fn w = (Inl e, w')"
  shows "fst (cb_execute fn now fin cb w) = Inl (Downstream e)"
    and "world_of (cb_execute fn now fin cb w) = w'"
    and "state (cb_of (cb_execute fn now fin cb w))
           = (if failureCount cb + 1 \<ge> failureThreshold cb then OPEN else CLOSED)"
    and "failureCount (cb_of (cb_execute fn now fin cb w)) = failureCount cb + 1"
    and "lastFailureTime (cb_of (cb_execute fn now fin cb w)) = Some fin"
  using assms by (simp_all add: cb_defs Let_def)

lemma cb_execute_open_rejects:
  assumes "state cb = OPEN" "lastFailureTime cb = Some t" "now - t < resetTimeout cb"
  shows "cb_execute fn now fin cb w = (Inl CIRCUIT_OPEN, count_rejected (count_total cb), w)"
  using assms by (simp add: cb_defs Let_def)

lemma cb_run_failures:
  assumes "always_fails fn" "state cb = CLOSED" "ts \<noteq> []"
    and "failureCount cb + int (length ts) = failureThreshold cb"
  shows "state (cb_of (cb_run fn ts cb w)) = OPEN
       \<and> lastFailureTime (cb_of (cb_run fn ts cb w)) = Some (snd (last ts))
       \<and> resetTimeout (cb_of (cb_run fn ts cb w)) = resetTimeout cb
       \<and> world_of (cb_run fn ts cb w) = world_after fn (length ts) w
       \<and> (\<forall>res \<in> set (fst (cb_run fn ts cb w)). \<exists>e. res = Inl (Downstream e))"
  using assms
proof (induction ts arbitrary: cb w)
  case Nil
  then show ?case by simp
next
  case (Cons c ts)
  obtain now fin where c: "c = (now, fin)" by (cases c)
  from Cons.prems(1) obtain e w' where fw: "fn w = (Inl e, w')"
    by (cases "fn w") (auto simp: always_fails_def isl_def dest: spec[of _ w])
  note ex = cb_execute_closed_failure[where fn=fn and w=w and now=now and fin=fin, OF Cons.prems(2) fw]
  let ?cb' = "cb_of (cb_execute fn now fin cb w)"
  have wa: "world_after fn (Suc n) w = world_after fn n w'" for n
    using fw funpow_swap1[of "\<lambda>v. snd (fn v)" n w] by (simp add: world_after_def)
  show ?case
  proof (cases "ts = []")
    case True
    with Cons.prems ex fw show ?thesis
      by (simp add: c cb_run_Cons world_after_def)
  next
    case False
    have st: "state ?cb' = CLOSED" using ex(3) Cons.prems(4) False by (cases ts) auto
    have fc: "failureCount ?cb' + int (length ts) = failureThreshold ?cb'"
      using ex(4) Cons.prems(4) by simp
    from Cons.IH[OF Cons.prems(1) st False fc, of w'] ex False show ?thesis
      by (simp add: c cb_run_Cons wa)
  qed
qed

lemma cb_run_open_rejects:
  assumes "state cb = OPEN" "lastFailureTime cb = Some t"
    and "\<forall>c\<in>set us. fst c - t < resetTimeout cb"
  shows "fst (cb_run g us cb v) = replicate (length us) (Inl CIRCUIT_OPEN)
       \<and> world_of (cb_run g us cb v) = v
       \<and> state (cb_of (cb_run g us cb v)) = OPEN"
  using assms
proof (induction us arbitrary: cb)
  case Nil
  then show ?case by simp
next
  case (Cons c us)
  obtain now fin where c: "c = (now, fin)" by (cases c)
  have lt: "now - t < resetTimeout cb" using Cons.prems(3) c by simp
  note ex = cb_execute_open_rejects[OF Cons.prems(1,2) lt, of g fin v]
  let ?cb' = "count_rejected (count_total cb)"
  have a: "state ?cb' = OPEN" "lastFailureTime ?cb' = Some t"
    "\<forall>c\<in>set us. fst c - t < resetTimeout ?cb'"
    using Cons.prems by (simp_all add: count_rejected_def count_total_def)
  from Cons.IH[OF a] show ?case
    by (simp add: c cb_run_Cons ex)
qed

text \<open>
  Claim C1. A breaker in \<open>CLOSED\<close> with no failure counted and threshold \<open>f > 0\<close>: after
  \<open>f\<close> calls of \<^verbatim>\<open>execute\<close> whose operation fails (each one invoked), the state is \<open>OPEN\<close>.
  From there, every call that starts less than \<^verbatim>\<open>resetTimeout\<close> after the last failure is
  thrown \<open>CIRCUIT_OPEN\<close>, whatever operation \<open>g\<close> it is given, and leaves the world of the
  operation as it was: the operation is not invoked.
\<close>

theorem circuit_opens_and_fails_fast:
  assumes "0 < failureThreshold cb" "state cb = CLOSED" "failureCount cb = 0"
    and "always_fails fn" "int (length ts) = failureThreshold cb"
  shows "state (cb_of (cb_run fn ts cb w)) = OPEN
       \<and> world_of (cb_run fn ts cb w) = world_after fn (length ts) w
       \<and> (\<forall>us. (\<forall>c\<in>set us. fst c - snd (last ts) < resetTimeout cb) \<longrightarrow>
             fst (cb_run g us (cb_of (cb_run fn ts cb w)) v)
               = replicate (length us) (Inl CIRCUIT_OPEN)
           \<and> world_of (cb_run g us (cb_of (cb_run fn ts cb w)) v) = v
           \<and> state (cb_of (cb_run g us (cb_of (cb_run fn ts cb w)) v)) = OPEN)"
proof -
  have ne: "ts \<noteq> []" using assms(1,5) by auto
  have fc: "failureCount cb + int (length ts) = failureThreshold cb" using assms(3,5) by simp
  note run = cb_run_failures[OF assms(4,2) ne fc, of w]
  let ?cb' = "cb_of (cb_run fn ts cb w)"
  have "fst (cb_run g us ?cb' v) = replicate (length us) (Inl CIRCUIT_OPEN)
       \<and> world_of (cb_run g us ?cb' v) = v \<and> state (cb_of (cb_run g us ?cb' v)) = OPEN"
    if "\<forall>c\<in>set us. fst c - snd (last ts) < resetTimeout cb" for us
    using cb_run_open_rejects[of ?cb' "snd (last ts)" us g v] run that by simp
  with run show ?thesis by blast
qed


theorem circuit_opens_and_fails_fast_witness:
  "0 < failureThreshold (CircuitBreaker_new default_cb_options)
   \<and> state (CircuitBreaker_new default_cb_options) = CLOSED
   \<and> failureCount (CircuitBreaker_new default_cb_options) = 0
   \<and> always_fails failing_op
   \<and> int (length [(0, 1), (2, 3), (4, 5), (6, 7), (8, 9 :: int) :: int \<times> int])
        = failureThreshold (CircuitBreaker_new default_cb_options)
   \<and> 10 - snd (last [(0, 1), (2, 3), (4, 5), (6, 7), (8, 9 :: int) :: int \<times> int])
        < resetTimeout (CircuitBreaker_new default_cb_options)
   \<and> 30008 - snd (last [(0, 1), (2, 3), (4, 5), (6, 7), (8, 9 :: int) :: int \<times> int])
        < resetTimeout (CircuitBreaker_new default_cb_options)
   \<and> state (cb_of (cb_run failing_op [(0, 1), (2, 3), (4, 5), (6, 7), (8, 9)]
                 (CircuitBreaker_new default_cb_options) 0)) = OPEN
   \<and> world_of (cb_run failing_op [(0, 1), (2, 3), (4, 5), (6, 7), (8, 9)]
                 (CircuitBreaker_new default_cb_options) 0) = 5
   \<and> fst (cb_run failing_op [(10, 11), (30008, 30009)]
            (cb_of (cb_run failing_op [(0, 1), (2, 3), (4, 5), (6, 7), (8, 9)]
                      (CircuitBreaker_new default_cb_options) 0)) 5)
        = [Inl CIRCUIT_OPEN, Inl CIRCUIT_OPEN]
   \<and> world_of (cb_run failing_op [(10, 11), (30008, 30009)]
            (cb_of (cb_run failing_op [(0, 1), (2, 3), (4, 5), (6, 7), (8, 9)]
                      (CircuitBreaker_new default_cb_options) 0)) 5) = 5"
proof -
  let ?cb = "CircuitBreaker_new default_cb_options"
  let ?ts = "[(0, 1), (2, 3), (4, 5), (6, 7), (8, 9 :: int) :: int \<times> int]"
  have cfg: "failureThreshold ?cb = 5" "resetTimeout ?cb = 30000" "state ?cb = CLOSED"
    "failureCount ?cb = 0"
    by (simp_all add: CircuitBreaker_new_def default_cb_options_def or_default_def)
  have h: "0 < failureThreshold ?cb" "state ?cb = CLOSED" "failureCount ?cb = 0"
    "always_fails failing_op" "int (length ?ts) = failureThreshold ?cb"
    by (simp_all add: cfg always_fails_def failing_op_def)
  have u: "\<forall>c\<in>set [(10, 11), (30008, 30009)]. fst c - snd (last ?ts) < resetTimeout ?cb"
    by (simp add: cfg)
  from circuit_opens_and_fails_fast[OF h, of 0 failing_op 5]
  have "state (cb_of (cb_run failing_op ?ts ?cb 0)) = OPEN"
    and "world_of (cb_run failing_op ?ts ?cb 0) = world_after failing_op (length ?ts) 0"
    and "fst (cb_run failing_op [(10, 11), (30008, 30009)] (cb_of (cb_run failing_op ?ts ?cb 0)) 5)
           = replicate (length [(10, 11), (30008, 30009 :: int) :: int \<times> int]) (Inl CIRCUIT_OPEN)
         \<and> world_of (cb_run failing_op [(10, 11), (30008, 30009)] (cb_of (cb_run failing_op ?ts ?cb 0)) 5) = 5"
    using u by blast+
  then show ?thesis using h u by (simp add: world_after_failing_op)
qed

text \<open>
  Claim C2 on the code. \<^verbatim>\<open>evaluateState\<close> resets \<^verbatim>\<open>halfOpenAttempts\<close> on entering
  \<open>HALF_OPEN\<close>, but \<^verbatim>\<open>onSuccess\<close> compares \<^verbatim>\<open>successCount\<close>, which is reset only when the
  circuit closes. With \<^verbatim>\<open>halfOpenRequests = 3\<close>: two successes in a first \<open>HALF_OPEN\<close>
  period, a failure, and then one success in the second period closes the circuit.
\<close>

theorem half_open_closes_on_stale_successes:
  "halfOpenRequests (CircuitBreaker_new quick_cb_options) = 3
   \<and> fst (cb_run scripted_op stale_script (CircuitBreaker_new quick_cb_options)
            ([False, True, True, False, True], 0))
       = [Inl (Downstream 0), Inr 1, Inr 2, Inl (Downstream 3), Inr 4]
   \<and> state (cb_of (cb_run scripted_op (take 4 stale_script) (CircuitBreaker_new quick_cb_options)
                    ([False, True, True, False, True], 0))) = OPEN
   \<and> successCount (cb_of (cb_run scripted_op (take 4 stale_script)
                    (CircuitBreaker_new quick_cb_options) ([False, True, True, False, True], 0))) = 2
   \<and> cb_of (cb_run scripted_op stale_script (CircuitBreaker_new quick_cb_options)
            ([False, True, True, False, True], 0))
       = \<lparr> failureThreshold = 1, resetTimeout = 30000, halfOpenRequests = 3, state = CLOSED,
           failureCount = 0, successCount = 0, lastFailureTime = Some 30050, halfOpenAttempts = 0,
           cb_stats = \<lparr> cb_totalRequests = 5, cb_successfulRequests = 3, cb_failedRequests = 2,
                        cb_rejectedRequests = 0,
                        stateChanges = [(CLOSED, OPEN, 5), (OPEN, HALF_OPEN, 30005),
                                        (HALF_OPEN, OPEN, 30050), (OPEN, HALF_OPEN, 60050),
                                        (HALF_OPEN, CLOSED, 60060)] \<rparr> \<rparr>"
  by (simp add: stale_script_def cb_run_Cons cb_defs CircuitBreaker_new_def quick_cb_options_def
        default_cb_options_def or_default_def Let_def)

lemma cb_reachable_execute:
  assumes "cb_reachable options cb"
  shows "cb_reachable options (cb_of (cb_execute fn now fin cb w))"
proof -
  let ?cb2 = "evaluateState now (count_total cb)"
  have start: "cb_reachable options (if state ?cb2 = OPEN then count_rejected ?cb2 else ?cb2)"
    by (rule call_starts[OF assms refl])
  show ?thesis
  proof (cases "state ?cb2 = OPEN")
    case True
    with start show ?thesis by (simp add: cb_execute_def Let_def)
  next
    case False
    with start have r: "cb_reachable options ?cb2" by simp
    obtain oc w' where fw: "fn w = (oc, w')" by (cases "fn w")
    show ?thesis
    proof (cases oc)
      case (Inl e)
      with False fw call_failed[OF r, of fin] show ?thesis
        by (simp add: cb_execute_def Let_def)
    next
      case (Inr x)
      with False fw call_succeeded[OF r, of fin] show ?thesis
        by (simp add: cb_execute_def Let_def)
    qed
  qed
qed

lemma cb_reachable_run:
  "cb_reachable options cb \<Longrightarrow> cb_reachable options (cb_of (cb_run fn ts cb w))"
proof (induction ts arbitrary: cb w)
  case Nil
  then show ?case by simp
next
  case (Cons c ts)
  obtain now fin where c: "c = (now, fin)" by (cases c)
  from Cons.IH[OF cb_reachable_execute[OF Cons.prems, of fn now fin w]]
  show ?case by (simp add: c cb_run_Cons)
qed

lemma cb_reachable_closed:
  "cb_reachable options cb \<Longrightarrow> state cb = CLOSED \<Longrightarrow> successCount cb = 0"
proof (induction rule: cb_reachable.induct)
  case constructed
  show ?case by (simp add: CircuitBreaker_new_def)
next
  case (call_starts cb cb2 now)
  then show ?case
    by (auto simp: evaluateState_def changeState_def count_total_def count_rejected_def Let_def
             split: if_splits)
next
  case (call_succeeded cb fin)
  then show ?case
    by (auto simp: onSuccess_def changeState_def resetCounts_def count_successful_def Let_def
             split: if_splits)
next
  case (call_failed cb fin)
  then show ?case
    by (auto simp: onFailure_def changeState_def count_failed_def Let_def split: if_splits)
next
  case (was_reset cb)
  show ?case by (simp add: cb_reset_def resetCounts_def)
qed

lemma cb_reachable_config:
  "cb_reachable options cb \<Longrightarrow>
     failureThreshold cb = failureThreshold (CircuitBreaker_new options)
   \<and> resetTimeout cb = resetTimeout (CircuitBreaker_new options)
   \<and> halfOpenRequests cb = halfOpenRequests (CircuitBreaker_new options)"
proof (induction rule: cb_reachable.induct)
  case constructed
  show ?case by simp
next
  case (call_starts cb cb2 now)
  then show ?case
    by (auto simp: evaluateState_def changeState_def count_total_def count_rejected_def Let_def)
next
  case (call_succeeded cb fin)
  then show ?case
    by (auto simp: onSuccess_def changeState_def resetCounts_def count_successful_def Let_def)
next
  case (call_failed cb fin)
  then show ?case
    by (auto simp: onFailure_def changeState_def count_failed_def Let_def)
next
  case (was_reset cb)
  then show ?case by (simp add: cb_reset_def resetCounts_def)
qed

text \<open>
  Claim C5, as amended. In every reachable state that is \<open>CLOSED\<close> the success counter is
  zero, so at most one of the two counters is non-zero there. Both counters are zeroed
  when a success closes the circuit from \<open>HALF_OPEN\<close>, and by \<^verbatim>\<open>reset\<close>.
\<close>

theorem counters_reset_on_close:
  assumes "cb_reachable options cb"
  shows "(state cb = CLOSED \<longrightarrow> successCount cb = 0)
       \<and> (state cb = HALF_OPEN \<and> state (onSuccess fin cb) = CLOSED \<longrightarrow>
            failureCount (onSuccess fin cb) = 0 \<and> successCount (onSuccess fin cb) = 0)
       \<and> failureCount (cb_reset cb) = 0 \<and> successCount (cb_reset cb) = 0"
  using cb_reachable_closed[OF assms]
  by (auto simp: onSuccess_def changeState_def resetCounts_def cb_reset_def Let_def
           split: if_splits)

text \<open>
  Claim C5 as stated fails: \<^verbatim>\<open>changeState\<close> resets no counter, so after the failure that
  opened the circuit and a first success in \<open>HALF_OPEN\<close> both counters are 1.
\<close>

theorem counters_both_nonzero:
  "cb_reachable quick_cb_options
     (cb_of (cb_run scripted_op [(0, 5), (30005, 30010)] (CircuitBreaker_new quick_cb_options)
               ([False, True], 0)))
   \<and> state (cb_of (cb_run scripted_op [(0, 5), (30005, 30010)]
                    (CircuitBreaker_new quick_cb_options) ([False, True], 0))) = HALF_OPEN
   \<and> failureCount (cb_of (cb_run scripted_op [(0, 5), (30005, 30010)]
                    (CircuitBreaker_new quick_cb_options) ([False, True], 0))) = 1
   \<and> successCount (cb_of (cb_run scripted_op [(0, 5), (30005, 30010)]
                    (CircuitBreaker_new quick_cb_options) ([False, True], 0))) = 1"
proof -
  have "cb_reachable quick_cb_options
     (cb_of (cb_run scripted_op [(0, 5), (30005, 30010)] (CircuitBreaker_new quick_cb_options)
               ([False, True], 0)))"
    by (rule cb_reachable_run[OF constructed])
  moreover have "cb_of (cb_run scripted_op [(0, 5), (30005, 30010)]
                    (CircuitBreaker_new quick_cb_options) ([False, True], 0))
     = \<lparr> failureThreshold = 1, resetTimeout = 30000, halfOpenRequests = 3, state = HALF_OPEN,
       failureCount = 1, successCount = 1, lastFailureTime = Some 5, halfOpenAttempts = 1,
       cb_stats = \<lparr> cb_totalRequests = 2, cb_successfulRequests = 1, cb_failedRequests = 1,
                    cb_rejectedRequests = 0,
                    stateChanges = [(CLOSED, OPEN, 5), (OPEN, HALF_OPEN, 30005)] \<rparr> \<rparr>"
    by (simp add: cb_run_Cons cb_defs CircuitBreaker_new_def quick_cb_options_def
        default_cb_options_def or_default_def Let_def)
  ultimately show ?thesis by simp
qed

lemma stale_closed:
  "state (cb_of (cb_run scripted_op stale_script (CircuitBreaker_new quick_cb_options)
               ([False, True, True, False, True], 0))) = CLOSED"
  by (simp add: stale_script_def cb_run_Cons cb_defs CircuitBreaker_new_def quick_cb_options_def
        default_cb_options_def or_default_def Let_def)

theorem counters_reset_on_close_witness:
  "cb_reachable quick_cb_options
     (cb_of (cb_run scripted_op stale_script (CircuitBreaker_new quick_cb_options)
               ([False, True, True, False, True], 0)))
   \<and> state (cb_of (cb_run scripted_op stale_script (CircuitBreaker_new quick_cb_options)
               ([False, True, True, False, True], 0))) = CLOSED
   \<and> successCount (cb_of (cb_run scripted_op stale_script (CircuitBreaker_new quick_cb_options)
               ([False, True, True, False, True], 0))) = 0
   \<and> cb_reachable quick_cb_options
     (cb_of (cb_run scripted_op (take 3 stale_script) (CircuitBreaker_new quick_cb_options)
               ([False, True, True], 0)))
   \<and> state (cb_of (cb_run scripted_op (take 3 stale_script) (CircuitBreaker_new quick_cb_options)
               ([False, True, True], 0))) = HALF_OPEN
   \<and> state (onSuccess 30050 (cb_of (cb_run scripted_op (take 3 stale_script)
               (CircuitBreaker_new quick_cb_options) ([False, True, True], 0)))) = CLOSED
   \<and> failureCount (onSuccess 30050 (cb_of (cb_run scripted_op (take 3 stale_script)
               (CircuitBreaker_new quick_cb_options) ([False, True, True], 0)))) = 0"
proof -
  let ?cb5 = "cb_of (cb_run scripted_op stale_script (CircuitBreaker_new quick_cb_options)
               ([False, True, True, False, True], 0))"
  let ?cb3 = "cb_of (cb_run scripted_op (take 3 stale_script) (CircuitBreaker_new quick_cb_options)
               ([False, True, True], 0))"
  have r: "cb_reachable quick_cb_options ?cb5" "cb_reachable quick_cb_options ?cb3"
    by (rule cb_reachable_run[OF constructed])+
  have c: "state ?cb5 = CLOSED"
    by (rule stale_closed)
  have h: "state ?cb3 = HALF_OPEN \<and> state (onSuccess 30050 ?cb3) = CLOSED"
    by (simp add: stale_script_def cb_run_Cons cb_defs CircuitBreaker_new_def quick_cb_options_def
        default_cb_options_def or_default_def Let_def)
  from counters_reset_on_close[OF r(1), THEN conjunct1, rule_format, OF c]
    counters_reset_on_close[OF r(2), of 30050, THEN conjunct2, THEN conjunct1, rule_format, OF h]
    r c h
  show ?thesis by simp
qed

lemma tryAcquire_seq_config:
  "maxRequests (snd (tryAcquire_seq ts rl)) = maxRequests rl
   \<and> windowMs (snd (tryAcquire_seq ts rl)) = windowMs rl"
  by (induction ts arbitrary: rl) (simp_all add: tryAcquire_seq_Cons)

lemma rl_alike_step:
  assumes "rl_alike a b"
  shows "fst (tryAcquire now a) = fst (tryAcquire now b)"
    and "rl_alike (snd (tryAcquire now a)) (snd (tryAcquire now b))"
  using assms by (auto simp: rl_alike_def tryAcquire_def cleanupOldRequests_def Let_def)

lemma rl_alike_seq:
  "rl_alike a b \<Longrightarrow> fst (tryAcquire_seq ts a) = fst (tryAcquire_seq ts b)"
proof (induction ts arbitrary: a b)
  case Nil
  show ?case by simp
next
  case (Cons now ts)
  from Cons.IH[OF rl_alike_step(2)[OF Cons.prems, of now]] rl_alike_step(1)[OF Cons.prems, of now]
  show ?case by (simp add: tryAcquire_seq_Cons)
qed

lemma cb_alike_step:
  assumes "cb_alike a b"
  shows "fst (cb_execute fn now fin a w) = fst (cb_execute fn now fin b w)"
    and "world_of (cb_execute fn now fin a w) = world_of (cb_execute fn now fin b w)"
    and "cb_alike (cb_of (cb_execute fn now fin a w)) (cb_of (cb_execute fn now fin b w))"
proof -
  obtain oc w' where fw: "fn w = (oc, w')" by (cases "fn w")
  show "fst (cb_execute fn now fin a w) = fst (cb_execute fn now fin b w)"
    using assms fw by (cases oc) (auto simp: cb_alike_def cb_defs Let_def)
  show "world_of (cb_execute fn now fin a w) = world_of (cb_execute fn now fin b w)"
    using assms fw by (cases oc) (auto simp: cb_alike_def cb_defs Let_def)
  show "cb_alike (cb_of (cb_execute fn now fin a w)) (cb_of (cb_execute fn now fin b w))"
    using assms fw by (cases oc) (auto simp: cb_alike_def cb_defs Let_def)
qed

lemma cb_alike_run:
  "cb_alike a b \<Longrightarrow>
     fst (cb_run fn ts a w) = fst (cb_run fn ts b w)
   \<and> world_of (cb_run fn ts a w) = world_of (cb_run fn ts b w)"
proof (induction ts arbitrary: a b w)
  case Nil
  show ?case by simp
next
  case (Cons c ts)
  obtain now fin where c: "c = (now, fin)" by (cases c)
  note st = cb_alike_step[OF Cons.prems, of fn now fin w]
  from Cons.IH[OF st(3), of "world_of (cb_execute fn now fin a w)"] st(1,2)
  show ?case by (simp add: c cb_run_Cons)
qed

lemma rl_alike_reset:
  assumes "maxRequests rl = maxRequests (RateLimiter_new rl_options)"
    and "windowMs rl = windowMs (RateLimiter_new rl_options)"
  shows "rl_alike (rl_reset rl) (RateLimiter_new rl_options)"
  using assms by (simp add: rl_alike_def rl_reset_def) (simp add: RateLimiter_new_def)

lemma cb_alike_turns:
  assumes "cb_alike a b"
  shows "cb_alike (evaluateState now (count_total a)) (evaluateState now (count_total b))"
    and "cb_alike (count_rejected a) (count_rejected b)"
    and "cb_alike (count_successful (onSuccess fin a)) (count_successful (onSuccess fin b))"
    and "cb_alike (count_failed (onFailure fin a)) (count_failed (onFailure fin b))"
  using assms
  by (auto simp: cb_alike_def evaluateState_def onSuccess_def onFailure_def changeState_def
        resetCounts_def count_total_def count_rejected_def count_successful_def count_failed_def
        Let_def)

text \<open>
  Claim C6, as amended. \<^verbatim>\<open>reset\<close> empties the timestamps of the rate limiter and leaves
  its statistics; it puts the breaker in \<open>CLOSED\<close> with \<^verbatim>\<open>failureCount\<close>, \<^verbatim>\<open>successCount\<close>
  and \<^verbatim>\<open>halfOpenAttempts\<close> zero and leaves its statistics and \<^verbatim>\<open>lastFailureTime\<close>. After
  it the rate limiter, whatever its state was, answers every sequence of \<^verbatim>\<open>tryAcquire\<close> as
  a freshly constructed one. The breaker, reset in any reachable state, agrees with a
  freshly constructed one in all that \<^verbatim>\<open>execute\<close> reads; every part of \<^verbatim>\<open>execute\<close> that runs
  without suspension (the start of a call, the return of its operation, its throw) keeps
  that agreement; and calls run one after the other on it, with no other call of the
  breaker in between, get the results that a fresh breaker gives.
\<close>

theorem reset_restores_behaviour:
  "requests (rl_reset rl) = [] \<and> rl_stats (rl_reset rl) = rl_stats rl
   \<and> state (cb_reset cb) = CLOSED \<and> failureCount (cb_reset cb) = 0
   \<and> successCount (cb_reset cb) = 0 \<and> halfOpenAttempts (cb_reset cb) = 0
   \<and> cb_stats (cb_reset cb) = cb_stats cb \<and> lastFailureTime (cb_reset cb) = lastFailureTime cb
   \<and> (maxRequests rl = maxRequests (RateLimiter_new rl_options)
        \<and> windowMs rl = windowMs (RateLimiter_new rl_options) \<longrightarrow>
        fst (tryAcquire_seq ts (rl_reset rl)) = fst (tryAcquire_seq ts (RateLimiter_new rl_options)))
   \<and> (cb_reachable options cb \<longrightarrow>
        cb_alike (cb_reset cb) (CircuitBreaker_new options)
        \<and> fst (cb_run fn cs (cb_reset cb) w) = fst (cb_run fn cs (CircuitBreaker_new options) w)
        \<and> world_of (cb_run fn cs (cb_reset cb) w)
            = world_of (cb_run fn cs (CircuitBreaker_new options) w))
   \<and> (cb_alike a b \<longrightarrow>
        cb_alike (evaluateState now (count_total a)) (evaluateState now (count_total b))
        \<and> cb_alike (count_rejected a) (count_rejected b)
        \<and> cb_alike (count_successful (onSuccess fin a)) (count_successful (onSuccess fin b))
        \<and> cb_alike (count_failed (onFailure fin a)) (count_failed (onFailure fin b)))"
proof -
  have rl: "fst (tryAcquire_seq ts (rl_reset rl)) = fst (tryAcquire_seq ts (RateLimiter_new rl_options))"
    if "maxRequests rl = maxRequests (RateLimiter_new rl_options)
        \<and> windowMs rl = windowMs (RateLimiter_new rl_options)"
    using rl_alike_seq[OF rl_alike_reset, of rl rl_options ts] that by simp
  have cb: "cb_alike (cb_reset cb) (CircuitBreaker_new options)" if "cb_reachable options cb"
    using cb_reachable_config[OF that]
    by (simp add: cb_alike_def cb_reset_def resetCounts_def) (simp add: CircuitBreaker_new_def)
  have run: "fst (cb_run fn cs (cb_reset cb) w) = fst (cb_run fn cs (CircuitBreaker_new options) w)
        \<and> world_of (cb_run fn cs (cb_reset cb) w)
            = world_of (cb_run fn cs (CircuitBreaker_new options) w)"
    if "cb_reachable options cb"
    by (rule cb_alike_run[OF cb[OF that]])
  have fields: "requests (rl_reset rl) = [] \<and> rl_stats (rl_reset rl) = rl_stats rl
   \<and> state (cb_reset cb) = CLOSED \<and> failureCount (cb_reset cb) = 0
   \<and> successCount (cb_reset cb) = 0 \<and> halfOpenAttempts (cb_reset cb) = 0
   \<and> cb_stats (cb_reset cb) = cb_stats cb \<and> lastFailureTime (cb_reset cb) = lastFailureTime cb"
    by (simp add: rl_reset_def cb_reset_def resetCounts_def)
  have turns: "cb_alike a b \<longrightarrow>
        cb_alike (evaluateState now (count_total a)) (evaluateState now (count_total b))
        \<and> cb_alike (count_rejected a) (count_rejected b)
        \<and> cb_alike (count_successful (onSuccess fin a)) (count_successful (onSuccess fin b))
        \<and> cb_alike (count_failed (onFailure fin a)) (count_failed (onFailure fin b))"
    using cb_alike_turns by blast
  from fields rl cb run turns show ?thesis by blast
qed

text \<open>
  Claim C6 as stated fails for the counters of the rate limiter: after one admitted call
  and \<^verbatim>\<open>reset\<close>, \<^verbatim>\<open>totalRequests\<close> and \<^verbatim>\<open>allowedRequests\<close> are still 1.
\<close>

theorem reset_keeps_statistics:
  "rl_totalRequests (rl_stats (rl_reset (snd (tryAcquire 0 (RateLimiter_new default_rl_options))))) = 1
   \<and> rl_allowedRequests (rl_stats (rl_reset (snd (tryAcquire 0 (RateLimiter_new default_rl_options))))) = 1
   \<and> rl_totalRequests (rl_stats (RateLimiter_new default_rl_options)) = 0
   \<and> rl_allowedRequests (rl_stats (RateLimiter_new default_rl_options)) = 0"
  by (simp add: rl_reset_def tryAcquire_def cleanupOldRequests_def RateLimiter_new_def
        default_rl_options_def or_default_def Let_def)

theorem reset_restores_behaviour_witness:
  "maxRequests (snd (tryAcquire 0 (RateLimiter_new default_rl_options)))
     = maxRequests (RateLimiter_new default_rl_options)
   \<and> windowMs (snd (tryAcquire 0 (RateLimiter_new default_rl_options)))
     = windowMs (RateLimiter_new default_rl_options)
   \<and> fst (tryAcquire_seq [1] (rl_reset (snd (tryAcquire 0 (RateLimiter_new default_rl_options)))))
     = fst (tryAcquire_seq [1] (RateLimiter_new default_rl_options))
   \<and> cb_reachable quick_cb_options
     (cb_of (cb_run failing_op [(0, 5)] (CircuitBreaker_new quick_cb_options) 0))
   \<and> state (cb_of (cb_run failing_op [(0, 5)] (CircuitBreaker_new quick_cb_options) 0)) = OPEN
   \<and> failureCount (cb_of (cb_run failing_op [(0, 5)] (CircuitBreaker_new quick_cb_options) 0)) = 1
   \<and> cb_alike (cb_reset (cb_of (cb_run failing_op [(0, 5)] (CircuitBreaker_new quick_cb_options) 0)))
        (CircuitBreaker_new quick_cb_options)
   \<and> fst (cb_run failing_op [(6, 7)]
            (cb_reset (cb_of (cb_run failing_op [(0, 5)] (CircuitBreaker_new quick_cb_options) 0))) 1)
       = fst (cb_run failing_op [(6, 7)] (CircuitBreaker_new quick_cb_options) 1)
   \<and> fst (cb_run failing_op [(6, 7)] (CircuitBreaker_new quick_cb_options) 1)
       = [Inl (Downstream 1)]
   \<and> cb_alike
        (count_failed (onFailure 9
           (cb_reset (cb_of (cb_run failing_op [(0, 5)] (CircuitBreaker_new quick_cb_options) 0)))))
        (count_failed (onFailure 9 (CircuitBreaker_new quick_cb_options)))"
proof -
  let ?cb = "cb_of (cb_run failing_op [(0, 5)] (CircuitBreaker_new quick_cb_options) 0)"
  let ?rl = "snd (tryAcquire 0 (RateLimiter_new default_rl_options))"
  have r: "cb_reachable quick_cb_options ?cb"
    by (rule cb_reachable_run[OF constructed])
  have ev: "state ?cb = OPEN" "failureCount ?cb = 1"
    "fst (cb_run failing_op [(6, 7)] (CircuitBreaker_new quick_cb_options) 1) = [Inl (Downstream 1)]"
    by (simp_all add: cb_run_Cons cb_defs CircuitBreaker_new_def quick_cb_options_def
        default_cb_options_def or_default_def failing_op_def Let_def)
  have cfg: "maxRequests ?rl = maxRequests (RateLimiter_new default_rl_options)
        \<and> windowMs ?rl = windowMs (RateLimiter_new default_rl_options)"
    by simp
  note T = reset_restores_behaviour[where rl="?rl" and rl_options=default_rl_options and ts="[1]"
      and cb="?cb" and options=quick_cb_options and fn=failing_op and cs="[(6, 7)]" and w=1
      and a="cb_reset ?cb" and b="CircuitBreaker_new quick_cb_options" and now=0 and fin=9]
  from T cfg have rl: "fst (tryAcquire_seq [1] (rl_reset ?rl))
      = fst (tryAcquire_seq [1] (RateLimiter_new default_rl_options))"
    by blast
  from T r have cb: "cb_alike (cb_reset ?cb) (CircuitBreaker_new quick_cb_options)"
    and run: "fst (cb_run failing_op [(6, 7)] (cb_reset ?cb) 1)
       = fst (cb_run failing_op [(6, 7)] (CircuitBreaker_new quick_cb_options) 1)"
    by blast+
  from T cb have turn: "cb_alike (count_failed (onFailure 9 (cb_reset ?cb)))
        (count_failed (onFailure 9 (CircuitBreaker_new quick_cb_options)))"
    by blast
  from cfg rl r ev cb run turn show ?thesis by blast
qed

subsection \<open>Bulkhead\<close>

lemma set_clearTimeout [simp]: "set (clearTimeout i ts) = {p \<in> set ts. fst p \<noteq> i}"
  by (auto simp: clearTimeout_def)




lemma splice1_Cons_0 [simp]: "splice1 0 (r # q) = q"
  by (simp add: splice1_def)


lemma length_splice1: "length (splice1 k q) \<le> length q"
  by (simp add: splice1_def)











lemma bh_reachable_run: "bh_reachable options s \<Longrightarrow> bh_reachable options (bh_run xs s)"
  unfolding bh_run_def
  by (induction xs arbitrary: s) (simp_all add: turn)


lemma executeWithSlot_queue [simp]:
  "queue (bulkhead (executeWithSlot i s)) = queue (bulkhead s)"
  "queueSize (bulkhead (executeWithSlot i s)) = queueSize (bulkhead s)"
  by (simp_all add: executeWithSlot_def Let_def)

lemma releaseSlot_queue:
  "queueSize (bulkhead (releaseSlot s)) = queueSize (bulkhead s)
   \<and> length (queue (bulkhead (releaseSlot s))) \<le> length (queue (bulkhead s))"
  by (cases "queue (bulkhead s)") (simp_all add: releaseSlot_def Let_def)

lemma bh_step_queue_bound:
  assumes "0 \<le> queueSize (bulkhead s)"
    and "int (length (queue (bulkhead s))) \<le> queueSize (bulkhead s)"
  shows "queueSize (bulkhead (bh_step x s)) = queueSize (bulkhead s)
       \<and> int (length (queue (bulkhead (bh_step x s)))) \<le> queueSize (bulkhead s)"
proof (cases x)
  case (Call now)
  with assms show ?thesis
    by (simp add: bh_execute_def waitForSlot_def Let_def)
next
  case (Settles i ok)
  let ?s' = "s\<lparr>bulkhead := (if ok then (bulkhead s)\<lparr>bh_stats := (bh_stats (bulkhead s))\<lparr>bh_successfulRequests :=
                                 bh_successfulRequests (bh_stats (bulkhead s)) + 1\<rparr>\<rparr>
                else bulkhead s)\<lparr>currentConcurrent := currentConcurrent (bulkhead s) - 1\<rparr>,
               running := remove1 i (running s)\<rparr>"
  have "fn_settled i ok s = releaseSlot ?s'"
    by (simp add: fn_settled_def Let_def)
  with releaseSlot_queue[of ?s'] assms Settles show ?thesis
    by (auto split: if_splits)
next
  case (TimerFires i now)
  have "queueSize (bulkhead (timeout_fires i s)) = queueSize (bulkhead s)
       \<and> length (queue (bulkhead (timeout_fires i s))) \<le> length (queue (bulkhead s))"
    by (simp add: timeout_fires_def Let_def length_splice1)
  with assms TimerFires show ?thesis
    by (auto split: option.splits)
next
  case Reset
  with assms show ?thesis by (simp add: bh_reset_def Let_def)
qed

lemma bh_reachable_queue_bound:
  assumes "bh_reachable options s"
  shows "queueSize (bulkhead s) = queueSize (Bulkhead_new options)
       \<and> (0 \<le> queueSize (Bulkhead_new options) \<longrightarrow>
            int (length (queue (bulkhead s))) \<le> queueSize (Bulkhead_new options))"
  using assms
proof (induction rule: bh_reachable.induct)
  case started
  show ?case by (simp add: bh_start_def Bulkhead_new_def)
next
  case (turn s x)
  show ?case
  proof (cases "0 \<le> queueSize (Bulkhead_new options)")
    case True
    with turn.IH bh_step_queue_bound[of s x] show ?thesis by simp
  next
    case False
    have "queueSize (bulkhead (bh_step x s)) = queueSize (bulkhead s)"
    proof (cases x)
      case (Call now)
      then show ?thesis by (simp add: bh_execute_def waitForSlot_def Let_def)
    next
      case (Settles i ok)
      then show ?thesis
        using releaseSlot_queue by (simp add: fn_settled_def Let_def)
    next
      case (TimerFires i now)
      then show ?thesis by (simp add: timeout_fires_def Let_def split: option.splits)
    next
      case Reset
      then show ?thesis by (simp add: bh_reset_def Let_def)
    qed
    with turn.IH False show ?thesis by simp
  qed
qed

text \<open>
  Claim C8. A call that arrives while \<open>currentConcurrent \<ge> maxConcurrent\<close> and the queue
  holds \<^verbatim>\<open>queueSize\<close> entries (or more) is rejected with \<open>BULKHEAD_FULL\<close> in the same turn:
  the queue, the timers, the running calls and the slot count are as before. Hence, for a
  bulkhead with \<open>0 \<le> queueSize\<close>, the queue never holds more than \<^verbatim>\<open>queueSize\<close> entries.
\<close>

theorem bulkhead_full_rejects:
  "(currentConcurrent (bulkhead s) \<ge> maxConcurrent (bulkhead s)
      \<and> int (length (queue (bulkhead s))) \<ge> queueSize (bulkhead s) \<longrightarrow>
        decided (bh_execute now s) = decided s @ [(calls s, Refused BULKHEAD_FULL)]
      \<and> queue (bulkhead (bh_execute now s)) = queue (bulkhead s)
      \<and> timers (bh_execute now s) = timers s
      \<and> running (bh_execute now s) = running s
      \<and> currentConcurrent (bulkhead (bh_execute now s)) = currentConcurrent (bulkhead s))
   \<and> (bh_reachable options s \<and> 0 \<le> queueSize (bulkhead s) \<longrightarrow>
        int (length (queue (bulkhead s))) \<le> queueSize (bulkhead s))"
  using bh_reachable_queue_bound[of options s]
  by (auto simp: bh_execute_def Let_def)


















lemmas bh_defs = bh_run_def bh_start_def Bulkhead_new_def bh_execute_def executeWithSlot_def
  waitForSlot_def timeout_fires_def fn_settled_def releaseSlot_def clearTimeout_def splice1_def
  tiny_bh_options_def default_bh_options_def or_default_def or_default_str_def

lemma tiny_queued:
  "bh_run [Call 0, Call 10] (bh_start tiny_bh_options)
   = \<lparr> bulkhead = \<lparr> name = ''default'', maxConcurrent = 1, maxWait = 5000, queueSize = 1,
                    currentConcurrent = 1, queue = [\<lparr> req_id = 1, timestamp = 10 \<rparr>],
                    bh_stats = \<lparr> bh_totalRequests = 2, bh_successfulRequests = 0,
                                 bh_rejectedRequests = 0, bh_queuedRequests = 1,
                                 maxConcurrentReached = 1 \<rparr> \<rparr>,
       timers = [(1, 5010)], running = [0], decided = [(0, SlotGranted)], calls = 2 \<rparr>"
  by (simp add: bh_defs Let_def)




theorem bulkhead_full_rejects_witness:
  "currentConcurrent (bulkhead (bh_run [Call 0, Call 10] (bh_start tiny_bh_options)))
     \<ge> maxConcurrent (bulkhead (bh_run [Call 0, Call 10] (bh_start tiny_bh_options)))
   \<and> int (length (queue (bulkhead (bh_run [Call 0, Call 10] (bh_start tiny_bh_options)))))
     \<ge> queueSize (bulkhead (bh_run [Call 0, Call 10] (bh_start tiny_bh_options)))
   \<and> decided (bh_execute 20 (bh_run [Call 0, Call 10] (bh_start tiny_bh_options)))
     = [(0, SlotGranted), (2, Refused BULKHEAD_FULL)]
   \<and> queue (bulkhead (bh_execute 20 (bh_run [Call 0, Call 10] (bh_start tiny_bh_options))))
     = [\<lparr> req_id = 1, timestamp = 10 \<rparr>]
   \<and> bh_reachable tiny_bh_options (bh_run [Call 0, Call 10] (bh_start tiny_bh_options))
   \<and> 0 \<le> queueSize (bulkhead (bh_run [Call 0, Call 10] (bh_start tiny_bh_options)))
   \<and> int (length (queue (bulkhead (bh_run [Call 0, Call 10] (bh_start tiny_bh_options)))))
     \<le> queueSize (bulkhead (bh_run [Call 0, Call 10] (bh_start tiny_bh_options)))"
proof -
  let ?s = "bh_run [Call 0, Call 10] (bh_start tiny_bh_options)"
  have r: "bh_reachable tiny_bh_options ?s"
    by (rule bh_reachable_run[OF started])
  from bulkhead_full_rejects[of ?s 20 tiny_bh_options] r show ?thesis
    by (simp add: tiny_queued)
qed

declare bh_step.simps [simp del]


subsection \<open>Constructors\<close>

text \<open>
  Claim C10. In each of the four constructors, a numeric option given as \<open>0\<close> (and the
  name of a bulkhead given as the empty string) is replaced by the default. So a
  \<^verbatim>\<open>RetryPattern\<close> constructed with \<^verbatim>\<open>maxRetries: 0\<close> invokes a failing operation 4 times, and
  a \<^verbatim>\<open>RateLimiter\<close> constructed with \<^verbatim>\<open>maxRequests: 0\<close> admits 10 calls of a window and
  rejects the 11th.
\<close>

theorem falsy_options_replaced:
  "maxRetries (RetryPattern_new (ro\<lparr>opt_maxRetries := Some 0\<rparr>)) = 3
   \<and> delay (RetryPattern_new (ro\<lparr>opt_delay := Some 0\<rparr>)) = 1000
   \<and> backoffMultiplier (RetryPattern_new (ro\<lparr>opt_backoffMultiplier := Some 0\<rparr>)) = 2
   \<and> maxDelay (RetryPattern_new (ro\<lparr>opt_maxDelay := Some 0\<rparr>)) = 10000
   \<and> maxRequests (RateLimiter_new (lo\<lparr>opt_maxRequests := Some 0\<rparr>)) = 10
   \<and> windowMs (RateLimiter_new (lo\<lparr>opt_windowMs := Some 0\<rparr>)) = 60000
   \<and> failureThreshold (CircuitBreaker_new (co\<lparr>opt_failureThreshold := Some 0\<rparr>)) = 5
   \<and> resetTimeout (CircuitBreaker_new (co\<lparr>opt_resetTimeout := Some 0\<rparr>)) = 30000
   \<and> halfOpenRequests (CircuitBreaker_new (co\<lparr>opt_halfOpenRequests := Some 0\<rparr>)) = 3
   \<and> name (Bulkhead_new (bo\<lparr>opt_name := Some []\<rparr>)) = ''default''
   \<and> maxConcurrent (Bulkhead_new (bo\<lparr>opt_maxConcurrent := Some 0\<rparr>)) = 10
   \<and> maxWait (Bulkhead_new (bo\<lparr>opt_maxWait := Some 0\<rparr>)) = 5000
   \<and> queueSize (Bulkhead_new (bo\<lparr>opt_queueSize := Some 0\<rparr>)) = 20
   \<and> invocations (trace_of (retry_execute (RetryPattern_new (ro\<lparr>opt_maxRetries := Some 0\<rparr>))
        failing_op w)) = 4
   \<and> fst (tryAcquire_seq [0, 1, 2, 3, 4, 5, 6, 7, 8, 9, 10]
        (RateLimiter_new (default_rl_options\<lparr>opt_maxRequests := Some 0\<rparr>)))
       = [True, True, True, True, True, True, True, True, True, True, False]"
proof -
  let ?p = "RetryPattern_new (ro\<lparr>opt_maxRetries := Some 0\<rparr>)"
  have m: "maxRetries ?p = 3" by (simp add: RetryPattern_new_def or_default_def)
  have a: "\<forall>j\<le>nat (maxRetries ?p). isl (fst (failing_op (world_after failing_op j w)))"
    by (simp add: failing_op_def)
  have b: "1 + int (nat (maxRetries ?p)) = maxRetries ?p + 1" by (simp add: m)
  from retry_loop_exhausted[OF a b, of "delay ?p" None "[]"]
  have inv: "invocations (trace_of (retry_execute ?p failing_op w)) = 4"
    by (simp add: retry_execute_def invocations_def m)
  let ?rl = "RateLimiter_new (default_rl_options\<lparr>opt_maxRequests := Some 0\<rparr>)"
  have h: "requests ?rl = [] \<and> [0, 1, 2, 3, 4, 5, 6, 7, 8, 9] \<noteq> ([] :: int list)
      \<and> int (length [0, 1, 2, 3, 4, 5, 6, 7, 8, 9 :: int]) = maxRequests ?rl
      \<and> sorted ([0, 1, 2, 3, 4, 5, 6, 7, 8, 9] @ [10 :: int])
      \<and> 10 - hd [0, 1, 2, 3, 4, 5, 6, 7, 8, 9] < windowMs ?rl"
    by (simp add: RateLimiter_new_def default_rl_options_def or_default_def)
  have rl: "fst (tryAcquire_seq [0, 1, 2, 3, 4, 5, 6, 7, 8, 9, 10] ?rl)
       = [True, True, True, True, True, True, True, True, True, True, False]"
    using tryAcquire_seq_window(1)[OF h] by (simp add: numeral_eq_Suc)
  show ?thesis
    using inv rl
    by (simp add: RetryPattern_new_def RateLimiter_new_def CircuitBreaker_new_def Bulkhead_new_def
          or_default_def or_default_str_def)
qed

end
